theory Spec2Isabelle
  imports Main "HOL-Library.Multiset" "HOL-Library.AList"
begin

section \<open>Data model\<close>

text \<open>
  A two-dimensional numpy integer array is a list of rows. A tile (class \<open>Tile\<close> of
  \<open>20/main.py\<close>) has an identifier and an image; its methods replace the image, so each
  method is a function from the tile to the updated tile. Pixels have \<open>dtype=int\<close>; the
  only arithmetic on them is sums and products of values 0 and 1, far from the 64-bit
  range, so they are unbounded integers here.
\<close>

type_synonym array2 = "int list list"
type_synonym edge = "int list"

record Tile =
  id_tile :: int
  image_tile :: array2

datatype error = IndexError | ValueError | KeyError | TypeError | UnboundLocalError

text \<open>An \<open>n\<close> by \<open>n\<close> array.\<close>

definition square :: "nat \<Rightarrow> 'a list list \<Rightarrow> bool" where
  "square n m \<longleftrightarrow> length m = n \<and> (\<forall>r \<in> set m. length r = n)"

subsection \<open>numpy primitives\<close>

text \<open>\<open>m[::-1, :]\<close> reverses the order of the rows, \<open>m[:, ::-1]\<close> reverses every row.\<close>

definition flip_rows :: "'a list list \<Rightarrow> 'a list list" where
  "flip_rows m = rev m"

definition flip_cols :: "'a list list \<Rightarrow> 'a list list" where
  "flip_cols m = map rev m"

text \<open>\<open>numpy.transpose\<close> of a rectangular array: column \<open>j\<close> becomes row \<open>j\<close>.\<close>

definition transpose2 :: "'a list list \<Rightarrow> 'a list list" where
  "transpose2 m =
     (case m of [] \<Rightarrow> [] | r # _ \<Rightarrow> map (\<lambda>j. map (\<lambda>row. row ! j) m) [0..<length r])"

text \<open>
  \<open>numpy.rot90(m, k)\<close>, anticlockwise, as numpy writes it: \<open>k\<close> is reduced modulo 4 (a
  negative \<open>k\<close> gives a non-negative remainder, in Python as in HOL), then
  \<open>k = 0\<close> returns the array, \<open>k = 2\<close> flips both axes, \<open>k = 1\<close> is
  \<open>transpose(flip(m, 1))\<close> and \<open>k = 3\<close> is \<open>flip(transpose(m), 1)\<close>.
\<close>

definition rot90 :: "'a list list \<Rightarrow> int \<Rightarrow> 'a list list" where
  "rot90 m k =
     (let k' = k mod 4 in
      if k' = 0 then m
      else if k' = 2 then flip_cols (flip_rows m)
      else if k' = 1 then transpose2 (flip_cols m)
      else flip_cols (transpose2 m))"

subsection \<open>Tile methods\<close>

definition reflect_up_down :: "Tile \<Rightarrow> Tile" where
  "reflect_up_down t = t\<lparr>image_tile := flip_rows (image_tile t)\<rparr>"

definition reflect_left_right :: "Tile \<Rightarrow> Tile" where
  "reflect_left_right t = t\<lparr>image_tile := flip_cols (image_tile t)\<rparr>"

definition rotate_tile :: "Tile \<Rightarrow> int \<Rightarrow> Tile" where
  "rotate_tile t n_turns = t\<lparr>image_tile := rot90 (image_tile t) n_turns\<rparr>"

text \<open>
  \<open>list_edges\<close>: first row, last row, first column, last column. Indexing row 0 of an
  array without rows, or column 0 of an array without columns, raises \<open>IndexError\<close>.
\<close>

definition list_edges :: "Tile \<Rightarrow> error + edge list" where
  "list_edges t =
     (let m = image_tile t in
      if m = [] \<or> hd m = [] then Inl IndexError
      else Inr [hd m, last m, map hd m, map last m])"

text \<open>
  \<open>edges\<close>: the same four tuples as a Python set. A set is a list without duplicates;
  nothing below depends on its order, because every removal from a set goes through an
  arbitrary chooser (see \<open>set_pop\<close>).
\<close>

definition edges :: "Tile \<Rightarrow> error + edge list" where
  "edges t = (case list_edges t of Inl e \<Rightarrow> Inl e | Inr es \<Rightarrow> Inr (remdups es))"

section \<open>The eight-step orientation sequence\<close>

text \<open>
  Both \<open>match_two_tiles\<close> and \<open>measure_water_roughness\<close> run
  \<open>for i in range(8): if i == 4: reflect left-right; rotate by one quarter turn\<close>.
  \<open>orient_step i\<close> is the body's effect on the image at step \<open>i\<close>, \<open>orientation k m\<close> the
  image after steps \<open>0..k\<close>.
\<close>

definition orient_step :: "nat \<Rightarrow> 'a list list \<Rightarrow> 'a list list" where
  "orient_step i m = rot90 (if i = 4 then flip_cols m else m) 1"

definition orientation :: "nat \<Rightarrow> 'a list list \<Rightarrow> 'a list list" where
  "orientation k m = foldl (\<lambda>im i. orient_step i im) m [0..<Suc k]"

text \<open>
  The eight symmetries of a square grid of side \<open>n\<close>, each given independently of the
  code by the source pixel it reads for target position \<open>(i, j)\<close>.
\<close>

datatype dihedral = Ident | Rot1 | Rot2 | Rot3 | FlipLR | FlipUD | Transp | AntiTransp

fun source_pixel :: "dihedral \<Rightarrow> nat \<Rightarrow> nat \<times> nat \<Rightarrow> nat \<times> nat" where
  "source_pixel Ident n (i, j) = (i, j)"
| "source_pixel Rot1 n (i, j) = (j, n - 1 - i)"
| "source_pixel Rot2 n (i, j) = (n - 1 - i, n - 1 - j)"
| "source_pixel Rot3 n (i, j) = (n - 1 - j, i)"
| "source_pixel FlipLR n (i, j) = (i, n - 1 - j)"
| "source_pixel FlipUD n (i, j) = (n - 1 - i, j)"
| "source_pixel Transp n (i, j) = (j, i)"
| "source_pixel AntiTransp n (i, j) = (n - 1 - j, n - 1 - i)"

definition apply_dihedral :: "dihedral \<Rightarrow> 'a list list \<Rightarrow> 'a list list" where
  "apply_dihedral d m =
     (let n = length m in
      map (\<lambda>i. map (\<lambda>j. case source_pixel d n (i, j) of (a, b) \<Rightarrow> m ! a ! b) [0..<n]) [0..<n])"

text \<open>The symmetry reached at each step of the sequence.\<close>

definition step_dihedral :: "dihedral list" where
  "step_dihedral = [Rot1, Rot2, Rot3, Ident, Transp, FlipUD, AntiTransp, FlipLR]"

section \<open>Errors, sets and lists of Python\<close>

text \<open>A raised exception is \<open>Inl\<close>; \<open>ebind\<close> runs the rest only after a normal return.\<close>

definition ebind :: "error + 'a \<Rightarrow> ('a \<Rightarrow> error + 'b) \<Rightarrow> error + 'b" where
  "ebind x f = (case x of Inl e \<Rightarrow> Inl e | Inr v \<Rightarrow> f v)"

text \<open>
  \<open>set.pop()\<close> removes and returns an arbitrary element and raises \<open>KeyError\<close> on the
  empty set. Which element is not fixed by the language, so it is a parameter: a chooser
  gives a position in the list that stands for the set. Every theorem below holds for
  every chooser.
\<close>

type_synonym 'a chooser = "'a list \<Rightarrow> nat"

definition set_pop :: "'a chooser \<Rightarrow> 'a list \<Rightarrow> error + ('a \<times> 'a list)" where
  "set_pop ch s =
     (if s = [] then Inl KeyError
      else (let k = ch s mod length s in Inr (s ! k, take k s @ drop (Suc k) s)))"

text \<open>\<open>a & b\<close>, \<open>a | b\<close> and \<open>a - b\<close> on sets.\<close>

definition inter_set :: "'a list \<Rightarrow> 'a list \<Rightarrow> 'a list" where
  "inter_set a b = filter (\<lambda>x. x \<in> set b) a"

definition union_set :: "'a list \<Rightarrow> 'a list \<Rightarrow> 'a list" where
  "union_set a b = a @ filter (\<lambda>x. x \<notin> set a) b"

definition diff_set :: "'a list \<Rightarrow> 'a list \<Rightarrow> 'a list" where
  "diff_set a b = filter (\<lambda>x. x \<notin> set b) a"

text \<open>\<open>{e[::-1] for e in s}\<close>\<close>

definition reversed_set :: "edge list \<Rightarrow> edge list" where
  "reversed_set s = remdups (map rev s)"

text \<open>\<open>list.index(x)\<close>: the first position of \<open>x\<close>, \<open>ValueError\<close> when there is none.\<close>

fun index_of :: "'a list \<Rightarrow> 'a \<Rightarrow> error + nat" where
  "index_of [] x = Inl ValueError"
| "index_of (y # ys) x =
     (if y = x then Inr 0 else ebind (index_of ys x) (\<lambda>k. Inr (Suc k)))"

section \<open>find_possible_neighbours and part one\<close>

text \<open>
  A dict is an association list in insertion order with distinct keys.
  \<open>itertools.combinations(keys, 2)\<close> gives every pair of positions \<open>a < b\<close> once, in
  lexicographic order; the loop looks both keys up in \<open>tiles\<close> at once, so the pairs
  here carry the tiles with them.
\<close>

fun combinations2 :: "'a list \<Rightarrow> ('a \<times> 'a) list" where
  "combinations2 [] = []"
| "combinations2 (x # xs) = map (Pair x) xs @ combinations2 xs"

text \<open>\<open>tile_to_neighbours[i].add(j)\<close> on a \<open>defaultdict(set)\<close>.\<close>

definition dd_add :: "(int \<times> int list) list \<Rightarrow> int \<Rightarrow> int \<Rightarrow> (int \<times> int list) list" where
  "dd_add d i j =
     AList.update i (List.insert j (case map_of d i of None \<Rightarrow> [] | Some s \<Rightarrow> s)) d"

fun neighbours_loop ::
  "((int \<times> Tile) \<times> (int \<times> Tile)) list \<Rightarrow> (int \<times> int list) list \<Rightarrow>
   error + (int \<times> int list) list" where
  "neighbours_loop [] tile_to_neighbours = Inr tile_to_neighbours"
| "neighbours_loop (((i, ti), (j, tj)) # pairs) tile_to_neighbours =
     ebind (edges ti) (\<lambda>ei.
       let edges_i = union_set ei (reversed_set ei) in
       ebind (edges tj) (\<lambda>edges_j.
         if inter_set edges_i edges_j \<noteq> []
         then neighbours_loop pairs (dd_add (dd_add tile_to_neighbours i j) j i)
         else neighbours_loop pairs tile_to_neighbours))"

text \<open>
  The returned dict maps each key to \<open>tuple(n)\<close>: the neighbours in the set's arbitrary
  order. Only the length and the members of that tuple are used below.
\<close>

definition find_possible_neighbours ::
  "(int \<times> Tile) list \<Rightarrow> error + (int \<times> int list) list" where
  "find_possible_neighbours tiles = neighbours_loop (combinations2 tiles) []"

text \<open>
  \<open>functools.reduce(lambda a, b: a * b, s)\<close> without an initial value: \<open>TypeError\<close> on
  an empty iterable.
\<close>

definition reduce_mul :: "int list \<Rightarrow> error + int" where
  "reduce_mul xs = (case xs of [] \<Rightarrow> Inl TypeError | x # ys \<Rightarrow> Inr (foldl (\<lambda>a b. a * b) x ys))"

definition corner_ids :: "(int \<times> int list) list \<Rightarrow> int list" where
  "corner_ids tile_to_neighbours =
     remdups [tile_id. (tile_id, neighbours) \<leftarrow> tile_to_neighbours, length neighbours = 2]"

text \<open>
  Part one of the main block: the value printed first. \<open>reduce\<close> walks the set of
  corner identifiers in the set's iteration order, which is the parameter \<open>order\<close>
  (a rearrangement of the list that stands for the set).
\<close>

definition part_one :: "(int list \<Rightarrow> int list) \<Rightarrow> (int \<times> Tile) list \<Rightarrow> error + int" where
  "part_one order tiles =
     ebind (find_possible_neighbours tiles) (\<lambda>tile_to_neighbours.
       reduce_mul (order (corner_ids tile_to_neighbours)))"

section \<open>match_two_tiles\<close>

definition check_match ::
  "edge chooser \<Rightarrow> Tile \<Rightarrow> Tile \<Rightarrow> edge list \<Rightarrow> error + nat option" where
  "check_match ch static_tile other_tile matching_edges =
     ebind (set_pop ch matching_edges) (\<lambda>(matching_edge, _).
     ebind (list_edges static_tile) (\<lambda>ls.
     ebind (index_of ls matching_edge) (\<lambda>i.
     ebind (list_edges other_tile) (\<lambda>lo.
     ebind (index_of lo matching_edge) (\<lambda>j.
       if (i, j) \<in> {(0, 1), (1, 0), (2, 3), (3, 2)} then Inr (Some i) else Inr None)))))"

text \<open>\<open>other_tile.edges & static_tile.edges\<close>\<close>

definition matching_edges_of :: "Tile \<Rightarrow> Tile \<Rightarrow> error + edge list" where
  "matching_edges_of other_tile static_tile =
     ebind (edges other_tile) (\<lambda>eo. ebind (edges static_tile) (\<lambda>es. Inr (inter_set eo es)))"

text \<open>
  The variable \<open>m\<close> of \<open>match_two_tiles\<close> is unbound until the first orientation that
  shares an edge; from then on it holds \<open>None\<close> or a side.
\<close>

datatype binding = Unbound | Bound "nat option"

text \<open>
  The loop over \<open>range(8)\<close>, on the remaining step indices. It returns the outcome
  together with the other tile as the loop left it, because the caller keeps using that
  mutated tile.
\<close>

fun match_steps ::
  "edge chooser \<Rightarrow> Tile \<Rightarrow> nat list \<Rightarrow> binding \<Rightarrow> Tile \<Rightarrow> (error + binding) \<times> Tile" where
  "match_steps ch static_tile [] m other_tile = (Inr m, other_tile)"
| "match_steps ch static_tile (i # steps) m other_tile =
     (let other1 = (if i = 4 then reflect_left_right other_tile else other_tile);
          other2 = rotate_tile other1 1
      in case matching_edges_of other2 static_tile of
           Inl e \<Rightarrow> (Inl e, other2)
         | Inr matching_edges \<Rightarrow>
             if matching_edges \<noteq> [] then
               (case check_match ch static_tile other2 matching_edges of
                  Inl e \<Rightarrow> (Inl e, other2)
                | Inr (Some s) \<Rightarrow> (Inr (Bound (Some s)), other2)
                | Inr None \<Rightarrow> match_steps ch static_tile steps (Bound None) other2)
             else match_steps ch static_tile steps m other2)"

text \<open>
  \<open>return m\<close>: reading the unbound \<open>m\<close> raises \<open>UnboundLocalError\<close>. The result is
  Python's \<open>None\<close> (\<open>Inr None\<close>) or a side index (\<open>Inr (Some i)\<close>).
\<close>

definition match_two_tiles ::
  "edge chooser \<Rightarrow> Tile \<Rightarrow> Tile \<Rightarrow> (error + nat option) \<times> Tile" where
  "match_two_tiles ch static_tile other_tile =
     (case match_steps ch static_tile [0..<8] Unbound other_tile of
        (Inl e, other') \<Rightarrow> (Inl e, other')
      | (Inr Unbound, other') \<Rightarrow> (Inl UnboundLocalError, other')
      | (Inr (Bound v), other') \<Rightarrow> (Inr v, other'))"

text \<open>The other tile in the orientation of step \<open>k\<close>.\<close>

definition oriented :: "nat \<Rightarrow> Tile \<Rightarrow> Tile" where
  "oriented k t = t\<lparr>image_tile := orientation k (image_tile t)\<rparr>"

text \<open>The other tile after the loop body has run for the given step indices.\<close>

definition after_steps :: "nat list \<Rightarrow> Tile \<Rightarrow> Tile" where
  "after_steps steps t = t\<lparr>image_tile := foldl (\<lambda>im i. orient_step i im) (image_tile t) steps\<rparr>"

text \<open>
  Whether the loop body, run on the static tile and an already turned other tile, finds
  a valid match: the two share an edge and \<open>check_match\<close> returns a side.
\<close>

definition finds_match :: "edge chooser \<Rightarrow> Tile \<Rightarrow> Tile \<Rightarrow> bool" where
  "finds_match ch static_tile other2 =
     (case matching_edges_of other2 static_tile of
        Inl e \<Rightarrow> False
      | Inr matching_edges \<Rightarrow>
          matching_edges \<noteq> [] \<and>
          (case check_match ch static_tile other2 matching_edges of
             Inr (Some s) \<Rightarrow> True | _ \<Rightarrow> False))"

definition shares_edge :: "Tile \<Rightarrow> Tile \<Rightarrow> bool" where
  "shares_edge static_tile other2 =
     (case matching_edges_of other2 static_tile of Inl e \<Rightarrow> False | Inr me \<Rightarrow> me \<noteq> [])"

section \<open>build_image: the first corner and the placement step\<close>

text \<open>
  Lines 126 to 130: the corner's edges that no neighbour has, in either direction.
  The neighbours are passed as tiles (\<open>tiles[n]\<close> for \<open>n\<close> in \<open>neighbour_ids\<close>).
\<close>

fun unmatched_loop :: "Tile list \<Rightarrow> edge list \<Rightarrow> error + edge list" where
  "unmatched_loop [] unmatched_edges = Inr unmatched_edges"
| "unmatched_loop (neighbour # ns) unmatched_edges =
     ebind (edges neighbour) (\<lambda>ne.
       let other_edges = union_set ne (reversed_set ne) in
       unmatched_loop ns (diff_set unmatched_edges (inter_set unmatched_edges other_edges)))"

text \<open>Lines 132 to 135: two pops, each looked up in the ordered edge list.\<close>

definition unmatched_indices :: "edge chooser \<Rightarrow> Tile \<Rightarrow> edge list \<Rightarrow> error + nat set" where
  "unmatched_indices ch first_corner unmatched_edges =
     ebind (list_edges first_corner) (\<lambda>le.
     ebind (set_pop ch unmatched_edges) (\<lambda>(e1, rest).
     ebind (index_of le e1) (\<lambda>a.
     ebind (set_pop ch rest) (\<lambda>(e2, _).
     ebind (index_of le e2) (\<lambda>b. Inr {a, b})))))"

text \<open>Lines 136 to 143: the corrective transform.\<close>

definition orient_corner :: "nat set \<Rightarrow> Tile \<Rightarrow> Tile" where
  "orient_corner unmatched first_corner =
     (if unmatched = {0, 3} then rotate_tile first_corner 1
      else if unmatched = {1, 3} then rotate_tile first_corner 2
      else if unmatched = {1, 2} then reflect_up_down first_corner
      else first_corner)"

definition orient_first_corner :: "edge chooser \<Rightarrow> Tile \<Rightarrow> Tile list \<Rightarrow> error + Tile" where
  "orient_first_corner ch first_corner neighbours =
     ebind (edges first_corner) (\<lambda>unmatched_edges.
     ebind (unmatched_loop neighbours unmatched_edges) (\<lambda>unmatched_edges.
     ebind (unmatched_indices ch first_corner unmatched_edges) (\<lambda>unmatched.
       Inr (orient_corner unmatched first_corner))))"

text \<open>Two edges with the same pixels, read in the same or in the opposite direction.\<close>

definition same_edge :: "edge \<Rightarrow> edge \<Rightarrow> bool" where
  "same_edge a b \<longleftrightarrow> a = b \<or> a = rev b"

text \<open>
  \<open>np.where(id_grid == current_id)\<close> lists the matching coordinates in row-major
  order; \<open>ind[0][0], ind[1][0]\<close> is the first one and raises \<open>IndexError\<close> when there is
  none.
\<close>

definition locate :: "int list list \<Rightarrow> int \<Rightarrow> error + (nat \<times> nat)" where
  "locate id_grid current_id =
     (case [(i, j). i \<leftarrow> [0..<length id_grid], j \<leftarrow> [0..<length (id_grid ! i)],
                    id_grid ! i ! j = current_id] of
        [] \<Rightarrow> Inl IndexError
      | p # _ \<Rightarrow> Inr p)"

text \<open>
  A numpy index \<open>k\<close> on an axis of length \<open>n\<close>: \<open>0 \<le> k < n\<close> is itself, \<open>-n \<le> k < 0\<close>
  counts from the end, anything else raises \<open>IndexError\<close>.
\<close>

definition np_index :: "nat \<Rightarrow> int \<Rightarrow> error + nat" where
  "np_index n k =
     (if 0 \<le> k \<and> k < int n then Inr (nat k)
      else if - int n \<le> k \<and> k < 0 then Inr (nat (k + int n))
      else Inl IndexError)"

text \<open>\<open>id_grid[(a, b)] = v\<close>\<close>

definition grid_set :: "int list list \<Rightarrow> int \<times> int \<Rightarrow> int \<Rightarrow> error + int list list" where
  "grid_set id_grid p v =
     (case p of (a, b) \<Rightarrow>
        ebind (np_index (length id_grid) a) (\<lambda>i.
        ebind (np_index (length (id_grid ! i)) b) (\<lambda>j.
          Inr (id_grid[i := (id_grid ! i)[j := v]]))))"

text \<open>Lines 155 to 164. \<open>matched_edge\<close> is what \<open>match_two_tiles\<close> returned.\<close>

definition place_neighbour ::
  "int list list \<Rightarrow> int \<Rightarrow> int \<Rightarrow> nat option \<Rightarrow> error + int list list" where
  "place_neighbour id_grid current_id neighbour matched_edge =
     ebind (locate id_grid current_id) (\<lambda>(i, j).
       if matched_edge = Some 0 then grid_set id_grid (int i - 1, int j) neighbour
       else if matched_edge = Some 1 then grid_set id_grid (int i + 1, int j) neighbour
       else if matched_edge = Some 2 then grid_set id_grid (int i, int j - 1) neighbour
       else grid_set id_grid (int i, int j + 1) neighbour)"

text \<open>
  Lines 153 to 164 for one neighbour that is not yet in the grid: match, then place.
  The result has the grid and the neighbour tile as mutated by the match.
\<close>

definition match_and_place ::
  "edge chooser \<Rightarrow> int list list \<Rightarrow> Tile \<Rightarrow> Tile \<Rightarrow> error + (int list list \<times> Tile)" where
  "match_and_place ch id_grid current neighbour =
     (case match_two_tiles ch current neighbour of
        (Inl e, _) \<Rightarrow> Inl e
      | (Inr matched_edge, neighbour') \<Rightarrow>
          ebind (place_neighbour id_grid (id_tile current) (id_tile neighbour) matched_edge)
            (\<lambda>g. Inr (g, neighbour')))"

section \<open>measure_water_roughness\<close>

text \<open>\<open>MONSTER.splitlines()[1:]\<close>: the three lines of the literal, 20 characters each.\<close>

definition MONSTER :: "string list" where
  "MONSTER =
     [''                  # '',
      ''#    ##    ##    ###'',
      '' #  #  #  #  #  #   '']"

definition monster :: array2 where
  "monster = map (map (\<lambda>c. if c = CHR ''#'' then 1 else 0)) MONSTER"

definition shape :: "'a list list \<Rightarrow> nat \<times> nat" where
  "shape m = (length m, if m = [] then 0 else length (hd m))"

text \<open>\<open>w, h = monster.shape\<close>: \<open>w\<close> is the number of rows, \<open>h\<close> the number of columns.\<close>

definition w :: nat where "w = fst (shape monster)"
definition h :: nat where "h = snd (shape monster)"

definition array_sum :: "array2 \<Rightarrow> int" where
  "array_sum m = sum_list (concat m)"

definition monster_pixels :: int where
  "monster_pixels = array_sum monster"

text \<open>
  The product of two arrays broadcasts: on each axis the lengths must be equal or one of
  them 1 (that operand is repeated); otherwise numpy raises \<open>ValueError\<close>.
\<close>

definition bdim :: "nat \<Rightarrow> nat \<Rightarrow> error + nat" where
  "bdim a b =
     (if a = b then Inr a else if a = 1 then Inr b else if b = 1 then Inr a
      else Inl ValueError)"

definition stretch :: "nat \<Rightarrow> 'a list \<Rightarrow> 'a list" where
  "stretch k xs = (if length xs = k then xs else replicate k (hd xs))"

definition array_mul :: "array2 \<Rightarrow> array2 \<Rightarrow> error + array2" where
  "array_mul x y =
     (case (shape x, shape y) of ((r1, c1), (r2, c2)) \<Rightarrow>
        ebind (bdim r1 r2) (\<lambda>r.
        ebind (bdim c1 c2) (\<lambda>c.
          Inr (map2 (\<lambda>rx ry. map2 (\<lambda>a b. a * b) (stretch c rx) (stretch c ry))
                 (stretch r x) (stretch r y)))))"

text \<open>\<open>transformed_image[i : i + w, j : j + h]\<close>: slices are cut at the array bounds.\<close>

definition sub_image :: "array2 \<Rightarrow> nat \<Rightarrow> nat \<Rightarrow> array2" where
  "sub_image transformed_image i j = map (\<lambda>row. take h (drop j row)) (take w (drop i transformed_image))"

text \<open>\<open>(monster * sub_image).sum() == monster_pixels\<close>, as the 0 or 1 that is added.\<close>

definition window_match :: "array2 \<Rightarrow> nat \<Rightarrow> nat \<Rightarrow> error + int" where
  "window_match transformed_image i j =
     ebind (array_mul monster (sub_image transformed_image i j)) (\<lambda>p.
       Inr (if array_sum p = monster_pixels then 1 else 0))"

text \<open>\<open>range(k)\<close> is empty for \<open>k \<le> 0\<close>.\<close>

definition py_range :: "int \<Rightarrow> nat list" where
  "py_range k = [0..<nat k]"

fun count_loop :: "array2 \<Rightarrow> (nat \<times> nat) list \<Rightarrow> int \<Rightarrow> error + int" where
  "count_loop transformed_image [] num_monsters = Inr num_monsters"
| "count_loop transformed_image ((i, j) # ps) num_monsters =
     ebind (window_match transformed_image i j) (\<lambda>b.
       count_loop transformed_image ps (num_monsters + b))"

text \<open>\<open>count_monsters\<close> closes over \<open>n = image.shape[0]\<close> of the original image.\<close>

definition count_monsters :: "nat \<Rightarrow> array2 \<Rightarrow> error + int" where
  "count_monsters n transformed_image =
     count_loop transformed_image
       (List.product (py_range (int n - int w + 1)) (py_range (int n - int h + 1))) 0"

text \<open>
  The loop over \<open>range(8)\<close>: the state is the image and \<open>num_monsters\<close>, unbound
  (\<open>None\<close>) before the first step.
\<close>

fun scan_loop :: "nat \<Rightarrow> nat list \<Rightarrow> array2 \<times> int option \<Rightarrow> error + (array2 \<times> int option)" where
  "scan_loop n [] st = Inr st"
| "scan_loop n (i # steps) (img, nm) =
     (let image1 = (if i = 4 then flip_cols img else img);
          image2 = rot90 image1 1
      in ebind (count_monsters n image2) (\<lambda>num_monsters.
           if num_monsters > 0 then Inr (image2, Some num_monsters)
           else scan_loop n steps (image2, Some num_monsters)))"

definition measure_water_roughness :: "array2 \<Rightarrow> error + int" where
  "measure_water_roughness img =
     (let n = length img in
      ebind (scan_loop n [0..<8] (img, None)) (\<lambda>(img', nm).
        case nm of
          None \<Rightarrow> Inl UnboundLocalError
        | Some num_monsters \<Rightarrow> Inr (array_sum img' - num_monsters * array_sum monster)))"

section \<open>What a monster occurrence is\<close>

text \<open>
  The notions the scanner is meant to compute, stated on the bitmap alone and without the
  mask product. A pixel is set when it is 1 (\<open>Tile.__init__\<close> stores \<open>v == "#"\<close> as an
  integer), so a bitmap built from tiles holds only 0 and 1. The pattern's cells are the
  positions of \<open>#\<close> in the literal. The pattern occurs at \<open>(i, j)\<close> when every pattern
  cell \<open>(a, b)\<close> finds a set pixel at \<open>(i + a, j + b)\<close>. The occurrences in a bitmap of
  side \<open>n\<close> are the placements of the pattern's bounding box inside the bitmap, in
  row-major order, at which the pattern occurs.
\<close>

definition binary :: "array2 \<Rightarrow> bool" where
  "binary m \<longleftrightarrow> list_all (list_all (\<lambda>x. x = 0 \<or> x = 1)) m"

definition set_pixels :: "array2 \<Rightarrow> nat" where
  "set_pixels m = length (filter (\<lambda>x. x = 1) (concat m))"

definition monster_cells :: "(nat \<times> nat) list" where
  "monster_cells =
     [(a, b). a \<leftarrow> [0..<length MONSTER], b \<leftarrow> [0..<length (MONSTER ! a)],
              MONSTER ! a ! b = CHR ''#'']"

definition monster_at :: "array2 \<Rightarrow> nat \<Rightarrow> nat \<Rightarrow> bool" where
  "monster_at m i j \<longleftrightarrow> list_all (\<lambda>(a, b). m ! (i + a) ! (j + b) = 1) monster_cells"

definition occurrences :: "nat \<Rightarrow> array2 \<Rightarrow> (nat \<times> nat) list" where
  "occurrences n m =
     filter (\<lambda>(i, j). monster_at m i j)
       (List.product [0..<n + 1 - length MONSTER] [0..<n + 1 - length (hd MONSTER)])"

section \<open>Concrete inputs\<close>

text \<open>A bitmap without any symmetry, and a tile that carries it.\<close>

definition example_bitmap :: array2 where
  "example_bitmap = [[1, 1, 0], [0, 0, 0], [0, 0, 0]]"

definition example_tile :: Tile where
  "example_tile = \<lparr>id_tile = 7, image_tile = example_bitmap\<rparr>"

text \<open>
  Twenty by twenty bitmaps: one monster and two more pixels; the same turned so that the
  first step of the scan puts the monster upright; a frame of 76 set pixels along the
  four borders, which holds no monster in any orientation.
\<close>

definition monster_scene :: array2 where
  "monster_scene = monster @ [1 # 1 # replicate 18 0] @ replicate 16 (replicate 20 0)"

definition turned_scene :: array2 where
  "turned_scene = rot90 monster_scene 3"

definition calm_scene :: array2 where
  "calm_scene =
     replicate 20 1 # replicate 18 (1 # replicate 18 0 @ [1]) @ [replicate 20 1]"

text \<open>
  Three by three tiles. The static tile has top \<open>100\<close>, bottom \<open>111\<close>, left \<open>111\<close>
  and right \<open>011\<close>. \<open>other_ex\<close> joins it on the right after two quarter turns.
  \<open>other_none\<close> carries \<open>100\<close> on two opposite sides at once, so whenever it shares
  that edge with the static tile the first position found is not the opposite side.
  \<open>other_blank\<close> shares no edge with the static tile in any orientation.
\<close>

definition static_ex :: Tile where
  "static_ex = \<lparr>id_tile = 11, image_tile = [[1, 0, 0], [1, 0, 1], [1, 1, 1]]\<rparr>"

definition other_ex :: Tile where
  "other_ex = \<lparr>id_tile = 12, image_tile = [[0, 1, 1], [0, 0, 1], [0, 0, 0]]\<rparr>"

definition other_none :: Tile where
  "other_none = \<lparr>id_tile = 13, image_tile = [[0, 0, 1], [0, 1, 0], [0, 0, 1]]\<rparr>"

definition other_blank :: Tile where
  "other_blank = \<lparr>id_tile = 14, image_tile = [[0, 0, 0], [0, 0, 0], [0, 0, 0]]\<rparr>"

text \<open>A chooser: always the first element of the list that stands for the set.\<close>

definition first_choice :: "'a chooser" where
  "first_choice s = 0"

text \<open>A placement grid of side 3 that holds only the static tile's identifier.\<close>

definition grid_corner :: "int list list" where
  "grid_corner = [[11, 0, 0], [0, 0, 0], [0, 0, 0]]"

text \<open>
  The other tile, already turned, shares at most one edge with the static tile and the
  loop body finds no valid match on it.
\<close>

definition one_shared_no_match :: "Tile \<Rightarrow> Tile \<Rightarrow> bool" where
  "one_shared_no_match static_tile other2 =
     (case matching_edges_of other2 static_tile of
        Inl e \<Rightarrow> False
      | Inr me \<Rightarrow> length me \<le> 1 \<and> \<not> finds_match first_choice static_tile other2)"

text \<open>
  A corner tile with top \<open>110\<close>, bottom \<open>100\<close>, left \<open>101\<close> and right \<open>010\<close>, and two
  neighbours: one carries \<open>100\<close>, the other \<open>101\<close> (and \<open>100\<close>), neither carries
  \<open>110\<close>, \<open>011\<close> or \<open>010\<close>. The corner's top and right edges are unmatched.
\<close>

definition corner_ex :: Tile where
  "corner_ex = \<lparr>id_tile = 21, image_tile = [[1, 1, 0], [0, 0, 1], [1, 0, 0]]\<rparr>"

definition below_ex :: Tile where
  "below_ex = \<lparr>id_tile = 22, image_tile = [[0, 0, 1], [0, 0, 0], [0, 0, 0]]\<rparr>"

definition left_ex :: Tile where
  "left_ex = \<lparr>id_tile = 23, image_tile = [[1, 0, 1], [0, 0, 0], [0, 0, 0]]\<rparr>"

text \<open>Four tiles, of which \<open>corner_ex\<close> and \<open>other_blank\<close> get two candidate neighbours.\<close>

definition tiles_ex :: "(int \<times> Tile) list" where
  "tiles_ex = [(21, corner_ex), (22, below_ex), (23, left_ex), (14, other_blank)]"

text \<open>
  What the loop of \<open>find_possible_neighbours\<close> maintains: the dict has distinct keys and
  every value is a set (a list without duplicates).
\<close>

definition dict_inv :: "(int \<times> int list) list \<Rightarrow> bool" where
  "dict_inv d \<longleftrightarrow> distinct (map fst d) \<and> (\<forall>(t, ns) \<in> set d. distinct ns)"

section \<open>Shape and content of the transforms\<close>

lemma square_flip_rows: "square n m \<Longrightarrow> square n (flip_rows m)"
  by (simp add: square_def flip_rows_def)

lemma square_flip_cols: "square n m \<Longrightarrow> square n (flip_cols m)"
  by (auto simp: square_def flip_cols_def)

lemma square_transpose2: "square n m \<Longrightarrow> square n (transpose2 m)"
  by (cases m) (auto simp: square_def transpose2_def)

lemma square_rot90: "square n m \<Longrightarrow> square n (rot90 m k)"
  by (simp add: rot90_def Let_def square_flip_rows square_flip_cols square_transpose2)

lemma square_row: "square n m \<Longrightarrow> i < n \<Longrightarrow> length (m ! i) = n"
  by (simp add: square_def)

lemma nth_flip_rows:
  "square n m \<Longrightarrow> i < n \<Longrightarrow> flip_rows m ! i = m ! (n - 1 - i)"
  by (simp add: square_def flip_rows_def rev_nth)

lemma nth_flip_cols:
  "square n m \<Longrightarrow> i < n \<Longrightarrow> j < n \<Longrightarrow> flip_cols m ! i ! j = m ! i ! (n - 1 - j)"
  by (simp add: square_def flip_cols_def rev_nth)

lemma transpose2_square:
  "square n m \<Longrightarrow> transpose2 m = map (\<lambda>j. map (\<lambda>row. row ! j) m) [0..<n]"
  by (cases m) (auto simp: square_def transpose2_def)

lemma nth_transpose2:
  "square n m \<Longrightarrow> i < n \<Longrightarrow> j < n \<Longrightarrow> transpose2 m ! i ! j = m ! j ! i"
  by (simp add: transpose2_square) (simp add: square_def)

lemma square_eqI:
  assumes "square n a" "square n b"
    and "\<And>i j. i < n \<Longrightarrow> j < n \<Longrightarrow> a ! i ! j = b ! i ! j"
  shows "a = b"
proof (rule nth_equalityI)
  show "length a = length b" using assms(1,2) by (simp add: square_def)
next
  fix i assume "i < length a"
  then have i: "i < n" using assms(1) by (simp add: square_def)
  show "a ! i = b ! i"
  proof (rule nth_equalityI)
    show "length (a ! i) = length (b ! i)"
      using i assms(1,2) by (simp add: square_row)
  next
    fix j assume "j < length (a ! i)"
    then have "j < n" using i assms(1) by (simp add: square_row)
    then show "a ! i ! j = b ! i ! j" using i assms(3) by simp
  qed
qed

lemma mset_concat_flip_rows: "mset (concat (flip_rows m)) = mset (concat m)"
  by (simp add: flip_rows_def mset_concat rev_map [symmetric] sum_list_rev)

lemma mset_concat_flip_cols: "mset (concat (flip_cols m)) = mset (concat m)"
  by (simp add: flip_cols_def mset_concat comp_def)

lemma mset_concat_cons_col:
  "mset (concat (map (\<lambda>i. map (f i) (y # ys)) xs)) =
   mset (map (\<lambda>i. f i y) xs) + mset (concat (map (\<lambda>i. map (f i) ys) xs))"
  by (induction xs) simp_all

lemma mset_concat_swap:
  "mset (concat (map (\<lambda>j. map (\<lambda>i. f i j) xs) ys)) =
   mset (concat (map (\<lambda>i. map (\<lambda>j. f i j) ys) xs))"
proof (induction ys)
  case Nil
  show ?case by (induction xs) simp_all
next
  case (Cons y ys)
  show ?case
    by (simp only: mset_concat_cons_col) (simp add: Cons.IH)
qed

lemma square_tabulate:
  assumes "square n m"
  shows "m = map (\<lambda>i. map (\<lambda>j. m ! i ! j) [0..<n]) [0..<n]"
proof (rule square_eqI [OF assms])
  show "square n (map (\<lambda>i. map (\<lambda>j. m ! i ! j) [0..<n]) [0..<n])"
    by (simp add: square_def)
qed simp

lemma transpose2_tabulate:
  assumes "square n m"
  shows "transpose2 m = map (\<lambda>j. map (\<lambda>i. m ! i ! j) [0..<n]) [0..<n]"
proof (rule square_eqI [OF square_transpose2 [OF assms]])
  show "square n (map (\<lambda>j. map (\<lambda>i. m ! i ! j) [0..<n]) [0..<n])"
    by (simp add: square_def)
qed (simp add: nth_transpose2 [OF assms])

lemma mset_concat_transpose2:
  assumes "square n m"
  shows "mset (concat (transpose2 m)) = mset (concat m)"
proof -
  have "mset (concat (transpose2 m)) =
        mset (concat (map (\<lambda>j. map (\<lambda>i. m ! i ! j) [0..<n]) [0..<n]))"
    by (simp only: transpose2_tabulate [OF assms])
  also have "\<dots> = mset (concat (map (\<lambda>i. map (\<lambda>j. m ! i ! j) [0..<n]) [0..<n]))"
    by (rule mset_concat_swap)
  also have "\<dots> = mset (concat m)"
    using square_tabulate [OF assms] by simp
  finally show ?thesis .
qed

lemma mset_concat_rot90:
  assumes "square n m"
  shows "mset (concat (rot90 m k)) = mset (concat m)"
  using mset_concat_transpose2 [OF assms]
    mset_concat_transpose2 [OF square_flip_cols [OF assms]]
  by (simp add: rot90_def Let_def mset_concat_flip_rows mset_concat_flip_cols)

lemma nth_rot90_1:
  assumes "square n m" "i < n" "j < n"
  shows "rot90 m 1 ! i ! j = m ! j ! (n - 1 - i)"
  using assms
  by (simp add: rot90_def nth_transpose2 [OF square_flip_cols] nth_flip_cols)

lemma square_orient_step: "square n m \<Longrightarrow> square n (orient_step i m)"
  by (simp add: orient_step_def square_rot90 square_flip_cols)

lemma square_apply_dihedral: "square n m \<Longrightarrow> square n (apply_dihedral d m)"
  by (simp add: apply_dihedral_def square_def)

lemma nth_apply_dihedral:
  "square n m \<Longrightarrow> i < n \<Longrightarrow> j < n \<Longrightarrow>
   apply_dihedral d m ! i ! j = (case source_pixel d n (i, j) of (a, b) \<Rightarrow> m ! a ! b)"
  by (simp add: apply_dihedral_def square_def)

lemma rot90_dihedral:
  assumes "square n m"
  shows "rot90 (apply_dihedral Ident m) 1 = apply_dihedral Rot1 m"
    and "rot90 (apply_dihedral Rot1 m) 1 = apply_dihedral Rot2 m"
    and "rot90 (apply_dihedral Rot2 m) 1 = apply_dihedral Rot3 m"
    and "rot90 (apply_dihedral Rot3 m) 1 = apply_dihedral Ident m"
    and "rot90 (apply_dihedral Transp m) 1 = apply_dihedral FlipUD m"
    and "rot90 (apply_dihedral FlipUD m) 1 = apply_dihedral AntiTransp m"
    and "rot90 (apply_dihedral AntiTransp m) 1 = apply_dihedral FlipLR m"
    and "rot90 (apply_dihedral FlipLR m) 1 = apply_dihedral Transp m"
  by (rule square_eqI [OF square_rot90 [OF square_apply_dihedral [OF assms]]
        square_apply_dihedral [OF assms]],
      simp add: nth_rot90_1 [OF square_apply_dihedral [OF assms]]
        nth_apply_dihedral [OF assms])+

lemma apply_Ident:
  assumes "square n m"
  shows "apply_dihedral Ident m = m"
  by (rule square_eqI [OF square_apply_dihedral [OF assms] assms])
     (simp add: nth_apply_dihedral [OF assms])

lemma flip_cols_dihedral:
  assumes "square n m"
  shows "flip_cols m = apply_dihedral FlipLR m"
  by (rule square_eqI [OF square_flip_cols [OF assms] square_apply_dihedral [OF assms]])
     (simp add: nth_apply_dihedral [OF assms] nth_flip_cols [OF assms])

lemma orientation_Suc:
  "orientation (Suc k) m = orient_step (Suc k) (orientation k m)"
  by (simp add: orientation_def)

lemma orientation_0: "orientation 0 m = orient_step 0 m"
  by (simp add: orientation_def)

lemma square_orientation: "square n m \<Longrightarrow> square n (orientation k m)"
  by (induction k) (simp_all add: orientation_0 orientation_Suc square_orient_step)

lemma orientation_steps:
  "orientation 0 m = rot90 m 1"
  "orientation 1 m = rot90 (orientation 0 m) 1"
  "orientation 2 m = rot90 (orientation 1 m) 1"
  "orientation 3 m = rot90 (orientation 2 m) 1"
  "orientation 4 m = rot90 (flip_cols (orientation 3 m)) 1"
  "orientation 5 m = rot90 (orientation 4 m) 1"
  "orientation 6 m = rot90 (orientation 5 m) 1"
  "orientation 7 m = rot90 (orientation 6 m) 1"
  by (simp_all add: orientation_def orient_step_def upt_rec)

lemma orientation_dihedral:
  assumes "square n m"
  shows "orientation 0 m = apply_dihedral Rot1 m"
    and "orientation 1 m = apply_dihedral Rot2 m"
    and "orientation 2 m = apply_dihedral Rot3 m"
    and "orientation 3 m = m"
    and "orientation 4 m = apply_dihedral Transp m"
    and "orientation 5 m = apply_dihedral FlipUD m"
    and "orientation 6 m = apply_dihedral AntiTransp m"
    and "orientation 7 m = apply_dihedral FlipLR m"
proof -
  note r = rot90_dihedral [OF assms]
  show o0: "orientation 0 m = apply_dihedral Rot1 m"
    using r(1) by (simp add: orientation_steps(1) apply_Ident [OF assms])
  show o1: "orientation 1 m = apply_dihedral Rot2 m"
    by (simp only: orientation_steps(2) o0 r(2))
  show o2: "orientation 2 m = apply_dihedral Rot3 m"
    by (simp only: orientation_steps(3) o1 r(3))
  show o3: "orientation 3 m = m"
    by (simp only: orientation_steps(4) o2 r(4) apply_Ident [OF assms])
  show o4: "orientation 4 m = apply_dihedral Transp m"
    by (simp only: orientation_steps(5) o3 flip_cols_dihedral [OF assms] r(8))
  show o5: "orientation 5 m = apply_dihedral FlipUD m"
    by (simp only: orientation_steps(6) o4 r(5))
  show o6: "orientation 6 m = apply_dihedral AntiTransp m"
    by (simp only: orientation_steps(7) o5 r(6))
  show "orientation 7 m = apply_dihedral FlipLR m"
    by (simp only: orientation_steps(8) o6 r(7))
qed

lemma upt_8: "[0..<8] = [0, 1, 2, 3, 4, 5, 6, 7::nat]"
  by (simp add: upt_rec)

lemma distinct_step_dihedral: "distinct step_dihedral \<and> length step_dihedral = 8"
  by (simp add: step_dihedral_def)

lemma all_dihedral: "set step_dihedral = UNIV"
proof -
  have "d \<in> set step_dihedral" for d
    by (cases d) (simp_all add: step_dihedral_def)
  then show ?thesis by blast
qed

lemma array_sum_mset: "mset (concat a) = mset (concat b) \<Longrightarrow> array_sum a = array_sum b"
  by (metis array_sum_def sum_mset_sum_list)

lemma square_oriented: "square n (image_tile t) \<Longrightarrow> square n (image_tile (oriented k t))"
  by (simp add: oriented_def square_orientation)

lemma mset_concat_orient_step:
  assumes "square n m"
  shows "mset (concat (orient_step i m)) = mset (concat m)"
  using mset_concat_rot90 [OF assms, of 1] mset_concat_rot90 [OF square_flip_cols [OF assms], of 1]
  by (simp add: orient_step_def mset_concat_flip_cols)

lemma mset_concat_orientation:
  assumes "square n m"
  shows "mset (concat (orientation k m)) = mset (concat m)"
proof (induction k)
  case 0
  show ?case by (simp add: orientation_0 mset_concat_orient_step [OF assms])
next
  case (Suc k)
  show ?case
    using mset_concat_orient_step [OF square_orientation [OF assms], of "Suc k" k] Suc.IH
    by (simp add: orientation_Suc)
qed

section \<open>Claims about the transforms\<close>

text \<open>
  C8. Each tile transform (\<open>rotate\<close> by any number of quarter turns, positive or
  negative, \<open>reflect_up_down\<close>, \<open>reflect_left_right\<close>) keeps a square image square of
  the same side and keeps the multiset of its pixel values, hence the pixel sum; the
  identifier is untouched.
\<close>

theorem transforms_preserve_shape_and_content:
  assumes "square n (image_tile t)"
  shows "square n (image_tile (rotate_tile t k))
       \<and> mset (concat (image_tile (rotate_tile t k))) = mset (concat (image_tile t))
       \<and> array_sum (image_tile (rotate_tile t k)) = array_sum (image_tile t)
       \<and> square n (image_tile (reflect_up_down t))
       \<and> mset (concat (image_tile (reflect_up_down t))) = mset (concat (image_tile t))
       \<and> array_sum (image_tile (reflect_up_down t)) = array_sum (image_tile t)
       \<and> square n (image_tile (reflect_left_right t))
       \<and> mset (concat (image_tile (reflect_left_right t))) = mset (concat (image_tile t))
       \<and> array_sum (image_tile (reflect_left_right t)) = array_sum (image_tile t)
       \<and> id_tile (rotate_tile t k) = id_tile t
       \<and> id_tile (reflect_up_down t) = id_tile t
       \<and> id_tile (reflect_left_right t) = id_tile t"
proof -
  have r: "mset (concat (rot90 (image_tile t) k)) = mset (concat (image_tile t))"
    by (rule mset_concat_rot90 [OF assms])
  have u: "mset (concat (flip_rows (image_tile t))) = mset (concat (image_tile t))"
    by (rule mset_concat_flip_rows)
  have l: "mset (concat (flip_cols (image_tile t))) = mset (concat (image_tile t))"
    by (rule mset_concat_flip_cols)
  show ?thesis
    using r u l array_sum_mset [OF r] array_sum_mset [OF u] array_sum_mset [OF l]
      square_rot90 [OF assms, of k] square_flip_rows [OF assms] square_flip_cols [OF assms]
    by (simp add: rotate_tile_def reflect_up_down_def reflect_left_right_def)
qed

theorem transforms_preserve_shape_and_content_witness:
  "square 3 (image_tile example_tile)
   \<and> square 3 (image_tile (rotate_tile example_tile (-1)))
   \<and> mset (concat (image_tile (rotate_tile example_tile (-1))))
       = mset (concat (image_tile example_tile))
   \<and> image_tile (rotate_tile example_tile (-1)) = [[0, 0, 1], [0, 0, 1], [0, 0, 0]]
   \<and> array_sum (image_tile (reflect_up_down example_tile)) = 2"
proof -
  have sq: "square 3 (image_tile example_tile)"
    by (simp add: example_tile_def example_bitmap_def square_def)
  have img: "image_tile (rotate_tile example_tile (-1)) = [[0, 0, 1], [0, 0, 1], [0, 0, 0]]"
    by (simp add: example_tile_def example_bitmap_def rotate_tile_def rot90_def
        transpose2_def flip_cols_def upt_rec)
  have s: "array_sum (image_tile example_tile) = 2"
    by (simp add: example_tile_def example_bitmap_def array_sum_def)
  show ?thesis
    using sq img s transforms_preserve_shape_and_content [OF sq, of "-1"]
    by simp
qed

text \<open>
  C3. From any square bitmap, the eight steps of the sequence (a quarter turn
  anticlockwise at every step, a left-right reflection just before the turn of step 4)
  produce, in this order, the quarter turn, the half turn, the three-quarter turn, the
  bitmap itself, its transpose, its up-down reflection, its anti-transpose and its
  left-right reflection: the eight symmetries of the square, each at exactly one step.
  In particular four successive quarter turns give back the bitmap.
\<close>

theorem eight_steps_enumerate_dihedral:
  assumes "square n m"
  shows "map (\<lambda>k. orientation k m) [0..<8] = map (\<lambda>d. apply_dihedral d m) step_dihedral
    \<and> distinct step_dihedral \<and> set step_dihedral = UNIV \<and> length step_dihedral = 8
    \<and> apply_dihedral Ident m = m
    \<and> rot90 (rot90 (rot90 (rot90 m 1) 1) 1) 1 = m"
proof -
  have "rot90 (rot90 (rot90 (rot90 m 1) 1) 1) 1 = orientation 3 m"
    by (simp only: orientation_steps(1-4))
  then show ?thesis
    using orientation_dihedral [OF assms] distinct_step_dihedral all_dihedral
    by (simp add: upt_8 step_dihedral_def apply_Ident [OF assms])
qed

theorem eight_steps_enumerate_dihedral_witness:
  "square 3 example_bitmap
   \<and> map (\<lambda>k. orientation k example_bitmap) [0..<8]
       = map (\<lambda>d. apply_dihedral d example_bitmap) step_dihedral
   \<and> distinct (map (\<lambda>d. apply_dihedral d example_bitmap) step_dihedral)
   \<and> rot90 (rot90 (rot90 (rot90 example_bitmap 1) 1) 1) 1 = example_bitmap"
proof -
  have sq: "square 3 example_bitmap"
    by (simp add: example_bitmap_def square_def)
  have d: "distinct (map (\<lambda>d. apply_dihedral d example_bitmap) step_dihedral)"
    by (simp add: step_dihedral_def apply_dihedral_def example_bitmap_def upt_rec)
  show ?thesis
    using sq d eight_steps_enumerate_dihedral [OF sq] by simp
qed

section \<open>measure_water_roughness: proofs\<close>

lemma ebind_simps:
  "ebind (Inl e) f = Inl e"
  "ebind (Inr v) f = f v"
  by (simp_all add: ebind_def)

lemma shape_monster: "shape monster = (3, 20)"
  by (simp add: shape_def monster_def MONSTER_def)

lemma w_h: "w = 3" "h = 20"
  by (simp_all add: w_def h_def shape_monster)

lemma shape_sub_image:
  assumes "square n t" "i + w \<le> n" "j + h \<le> n"
  shows "shape (sub_image t i j) = (w, h)"
proof -
  have len: "length (sub_image t i j) = w"
    using assms by (simp add: sub_image_def square_def)
  have w0: "0 < w" by (simp add: w_h)
  then have ne: "sub_image t i j \<noteq> []" using len by auto
  have "\<forall>r \<in> set (sub_image t i j). length r = h"
  proof
    fix r assume "r \<in> set (sub_image t i j)"
    then obtain row where row: "row \<in> set (take w (drop i t))" and r: "r = take h (drop j row)"
      by (auto simp: sub_image_def)
    have "row \<in> set t" using row by (meson in_set_dropD in_set_takeD)
    then have "length row = n" using assms(1) by (simp add: square_def)
    then show "length r = h" using r assms(3) by simp
  qed
  then have "length (hd (sub_image t i j)) = h" using ne by simp
  then show ?thesis using len ne by (simp add: shape_def)
qed

lemma array_mul_same_shape:
  assumes "shape y = shape x"
  shows "\<exists>p. array_mul x y = Inr p"
  using assms by (simp add: array_mul_def bdim_def ebind_simps split: prod.splits)

lemma window_match_square:
  assumes "square n t" "i + w \<le> n" "j + h \<le> n"
  shows "window_match t i j = Inr 0 \<or> window_match t i j = Inr 1"
proof -
  have "shape (sub_image t i j) = shape monster"
    using shape_sub_image [OF assms] by (simp add: w_def h_def)
  then obtain p where "array_mul monster (sub_image t i j) = Inr p"
    using array_mul_same_shape by blast
  then show ?thesis by (simp add: window_match_def ebind_simps)
qed

lemma count_loop_total:
  assumes "\<forall>(i, j) \<in> set ps. window_match t i j = Inr 0 \<or> window_match t i j = Inr 1"
  shows "\<exists>c. count_loop t ps acc = Inr c \<and> acc \<le> c"
  using assms
proof (induction ps arbitrary: acc)
  case Nil
  show ?case by simp
next
  case (Cons p ps)
  obtain i j where p: "p = (i, j)" by (cases p)
  from Cons.prems p have b: "window_match t i j = Inr 0 \<or> window_match t i j = Inr 1"
    by simp
  from Cons.prems have rest:
    "\<forall>(i, j) \<in> set ps. window_match t i j = Inr 0 \<or> window_match t i j = Inr 1"
    by simp
  from b show ?case
  proof
    assume "window_match t i j = Inr 0"
    then show ?thesis using Cons.IH [OF rest, of acc] by (simp add: p ebind_simps)
  next
    assume "window_match t i j = Inr 1"
    then show ?thesis using Cons.IH [OF rest, of "acc + 1"]
      by (auto simp: p ebind_simps)
  qed
qed

lemma count_monsters_total:
  assumes "square n t"
  shows "\<exists>c. count_monsters n t = Inr c \<and> 0 \<le> c"
proof -
  have "\<forall>(i, j) \<in> set (List.product (py_range (int n - int w + 1)) (py_range (int n - int h + 1))).
          window_match t i j = Inr 0 \<or> window_match t i j = Inr 1"
  proof -
    have "window_match t i j = Inr 0 \<or> window_match t i j = Inr 1"
      if "i \<in> set (py_range (int n - int w + 1))" "j \<in> set (py_range (int n - int h + 1))"
      for i j
    proof -
      from that have "i + w \<le> n" "j + h \<le> n"
        by (auto simp: py_range_def)
      then show ?thesis using window_match_square [OF assms] by blast
    qed
    then show ?thesis by auto
  qed
  then show ?thesis
    unfolding count_monsters_def by (rule count_loop_total)
qed

lemma scan_loop_found:
  assumes "\<forall>q<length pre. count_monsters n (foldl (\<lambda>im i. orient_step i im) img (take (Suc q) pre)) = Inr 0"
    and "count_monsters n (foldl (\<lambda>im i. orient_step i im) img (pre @ [i])) = Inr c"
    and "0 < c"
  shows "scan_loop n (pre @ i # post) (img, nm) =
         Inr (foldl (\<lambda>im i. orient_step i im) img (pre @ [i]), Some c)"
  using assms
proof (induction pre arbitrary: img nm)
  case Nil
  then show ?case by (simp add: orient_step_def ebind_simps)
next
  case (Cons p ps)
  from Cons.prems(1) have first: "count_monsters n (orient_step p img) = Inr 0"
    by fastforce
  have rest: "\<forall>q<length ps. count_monsters n
      (foldl (\<lambda>im i. orient_step i im) (orient_step p img) (take (Suc q) ps)) = Inr 0"
    using Cons.prems(1) by fastforce
  have "scan_loop n ((p # ps) @ i # post) (img, nm) =
        scan_loop n (ps @ i # post) (orient_step p img, Some 0)"
    using first by (simp add: orient_step_def ebind_simps)
  also have "\<dots> = Inr (foldl (\<lambda>im i. orient_step i im) (orient_step p img) (ps @ [i]), Some c)"
    using Cons.IH [OF rest _ Cons.prems(3)] Cons.prems(2) by simp
  finally show ?case by simp
qed

lemma scan_loop_none:
  assumes "\<forall>q<length steps. count_monsters n (foldl (\<lambda>im i. orient_step i im) img (take (Suc q) steps)) = Inr 0"
    and "steps \<noteq> []"
  shows "scan_loop n steps (img, nm) = Inr (foldl (\<lambda>im i. orient_step i im) img steps, Some 0)"
  using assms
proof (induction steps arbitrary: img nm)
  case Nil
  then show ?case by simp
next
  case (Cons p ps)
  from Cons.prems(1) have first: "count_monsters n (orient_step p img) = Inr 0"
    by fastforce
  have rest: "\<forall>q<length ps. count_monsters n
      (foldl (\<lambda>im i. orient_step i im) (orient_step p img) (take (Suc q) ps)) = Inr 0"
    using Cons.prems(1) by fastforce
  have step: "scan_loop n (p # ps) (img, nm) = scan_loop n ps (orient_step p img, Some 0)"
    using first by (simp add: orient_step_def ebind_simps)
  show ?case
  proof (cases "ps = []")
    case True
    then show ?thesis using step by simp
  next
    case False
    then show ?thesis using step Cons.IH [OF rest False] by simp
  qed
qed

lemma take_upt_8: "q < 8 \<Longrightarrow> take (Suc q) [0..<8] = [0..<Suc q]"
  by (simp add: take_upt)

lemma roughness_first_match:
  assumes "k < 8"
    and "count_monsters (length img) (orientation k img) = Inr c" and "0 < c"
    and "\<forall>j<k. count_monsters (length img) (orientation j img) = Inr 0"
  shows "measure_water_roughness img = Inr (array_sum (orientation k img) - c * monster_pixels)"
proof -
  have split: "[0..<8] = [0..<k] @ k # [Suc k..<8]"
    using assms(1) by (metis less_imp_le_nat upt_add_eq_append upt_conv_Cons zero_le le_add_diff_inverse)
  have pre: "\<forall>q<length [0..<k]. count_monsters (length img)
      (foldl (\<lambda>im i. orient_step i im) img (take (Suc q) [0..<k])) = Inr 0"
  proof (intro allI impI)
    fix q assume "q < length [0..<k]"
    then have q: "q < k" by simp
    then have "take (Suc q) [0..<k] = [0..<Suc q]" by (simp add: take_upt)
    then show "count_monsters (length img)
      (foldl (\<lambda>im i. orient_step i im) img (take (Suc q) [0..<k])) = Inr 0"
      using assms(4) q by (simp add: orientation_def)
  qed
  have at: "count_monsters (length img)
      (foldl (\<lambda>im i. orient_step i im) img ([0..<k] @ [k])) = Inr c"
    using assms(2) by (simp add: orientation_def)
  have "scan_loop (length img) [0..<8] (img, None) = Inr (orientation k img, Some c)"
    using scan_loop_found [OF pre at assms(3), of "[Suc k..<8]" None]
    by (simp only: split[symmetric]) (simp add: orientation_def)
  then show ?thesis
    by (simp add: measure_water_roughness_def Let_def ebind_simps monster_pixels_def)
qed

lemma roughness_no_match:
  assumes "\<forall>k<8. count_monsters (length img) (orientation k img) = Inr 0"
  shows "measure_water_roughness img = Inr (array_sum (orientation 7 img))"
proof -
  have pre: "\<forall>q<length [0..<8::nat]. count_monsters (length img)
      (foldl (\<lambda>im i. orient_step i im) img (take (Suc q) [0..<8])) = Inr 0"
  proof (intro allI impI)
    fix q :: nat assume "q < length [0..<8::nat]"
    then have q: "q < 8" by simp
    show "count_monsters (length img)
      (foldl (\<lambda>im i. orient_step i im) img (take (Suc q) [0..<8])) = Inr 0"
      using assms q by (simp add: take_upt_8 orientation_def)
  qed
  have "scan_loop (length img) [0..<8] (img, None) = Inr (orientation 7 img, Some 0)"
    using scan_loop_none [OF pre, of None] by (simp add: orientation_def)
  then show ?thesis
    by (simp add: measure_water_roughness_def Let_def ebind_simps)
qed



lemma roughness_some_match:
  assumes "square n img" "k < 8" "count_monsters n (orientation k img) = Inr c" "0 < c"
  shows "\<exists>k' c'. k' \<le> k \<and> 0 < c' \<and> count_monsters n (orientation k' img) = Inr c'
           \<and> (\<forall>j<k'. count_monsters n (orientation j img) = Inr 0)
           \<and> measure_water_roughness img = Inr (array_sum img - c' * monster_pixels)"
proof -
  define P where "P = (\<lambda>k. \<exists>c. 0 < c \<and> count_monsters n (orientation k img) = Inr c)"
  define k' where "k' = (LEAST k. P k)"
  have Pk: "P k" using assms(3,4) by (auto simp: P_def)
  have Pk': "P k'" unfolding k'_def using Pk by (rule LeastI)
  have le: "k' \<le> k" unfolding k'_def using Pk by (rule Least_le)
  obtain c' where c': "0 < c'" "count_monsters n (orientation k' img) = Inr c'"
    using Pk' by (auto simp: P_def)
  have before: "\<forall>j<k'. count_monsters n (orientation j img) = Inr 0"
  proof (intro allI impI)
    fix j assume j: "j < k'"
    then have "\<not> P j" unfolding k'_def by (rule not_less_Least)
    moreover obtain d where "count_monsters n (orientation j img) = Inr d" "0 \<le> d"
      using count_monsters_total [OF square_orientation [OF assms(1)]] by blast
    ultimately show "count_monsters n (orientation j img) = Inr 0"
      by (cases "d = 0") (auto simp: P_def)
  qed
  have n: "length img = n" using assms(1) by (simp add: square_def)
  have "measure_water_roughness img = Inr (array_sum (orientation k' img) - c' * monster_pixels)"
    using roughness_first_match [of k' img c'] le assms(2) c' before by (simp add: n)
  moreover have "array_sum (orientation k' img) = array_sum img"
    by (rule array_sum_mset [OF mset_concat_orientation [OF assms(1)]])
  ultimately show ?thesis using le c' before by auto
qed

subsection \<open>The count is the number of occurrences\<close>

text \<open>
  On a square bitmap of 0/1 pixels the product-and-sum test of \<open>count_monsters\<close> is
  1 exactly at the placements where every pattern cell lies on a set pixel, so the
  count is the number of occurrences, and the pixel sum is the number of set pixels.
\<close>

lemma bit_mult_le:
  fixes x y :: int
  assumes "x = 0 \<or> x = 1" "y = 0 \<or> y = 1"
  shows "x * y \<le> x" and "x * y = x \<longleftrightarrow> (x = 1 \<longrightarrow> y = 1)"
  using assms by auto

lemma sum_eq_split:
  fixes a b c d :: int
  assumes "a \<le> c" "b \<le> d"
  shows "a + b = c + d \<longleftrightarrow> a = c \<and> b = d"
  using assms by arith

lemma masked_sum_le:
  assumes "length xs = length ys"
    and "\<forall>x \<in> set xs. x = 0 \<or> x = (1::int)" "\<forall>y \<in> set ys. y = 0 \<or> y = (1::int)"
  shows "sum_list (map2 (\<lambda>a b. a * b) xs ys) \<le> sum_list xs"
  using assms
proof (induction xs ys rule: list_induct2)
  case Nil
  show ?case by simp
next
  case (Cons x xs y ys)
  have "x * y \<le> x" using Cons.prems by (intro bit_mult_le(1)) simp_all
  moreover have "sum_list (map2 (\<lambda>a b. a * b) xs ys) \<le> sum_list xs"
    using Cons.IH Cons.prems by simp
  ultimately show ?case by simp
qed

lemma masked_sum_eq_iff:
  assumes "length xs = length ys"
    and "\<forall>x \<in> set xs. x = 0 \<or> x = (1::int)" "\<forall>y \<in> set ys. y = 0 \<or> y = (1::int)"
  shows "sum_list (map2 (\<lambda>a b. a * b) xs ys) = sum_list xs
         \<longleftrightarrow> (\<forall>k<length xs. xs ! k = 1 \<longrightarrow> ys ! k = 1)"
  using assms
proof (induction xs ys rule: list_induct2)
  case Nil
  show ?case by simp
next
  case (Cons x xs y ys)
  have b1: "x = 0 \<or> x = 1" and b2: "y = 0 \<or> y = 1" using Cons.prems by simp_all
  have xy: "x * y \<le> x" "x * y = x \<longleftrightarrow> (x = 1 \<longrightarrow> y = 1)"
    by (rule bit_mult_le [OF b1 b2])+
  have le: "sum_list (map2 (\<lambda>a b. a * b) xs ys) \<le> sum_list xs"
    using masked_sum_le [OF Cons.hyps] Cons.prems by simp
  have ih: "sum_list (map2 (\<lambda>a b. a * b) xs ys) = sum_list xs
         \<longleftrightarrow> (\<forall>k<length xs. xs ! k = 1 \<longrightarrow> ys ! k = 1)"
    using Cons.IH Cons.prems by simp
  have "sum_list (map2 (\<lambda>a b. a * b) (x # xs) (y # ys)) = sum_list (x # xs)
        \<longleftrightarrow> x * y = x \<and> sum_list (map2 (\<lambda>a b. a * b) xs ys) = sum_list xs"
    using sum_eq_split [OF xy(1) le] by simp
  also have "\<dots> \<longleftrightarrow> (x = 1 \<longrightarrow> y = 1) \<and> (\<forall>k<length xs. xs ! k = 1 \<longrightarrow> ys ! k = 1)"
    by (simp only: xy(2) ih)
  also have "\<dots> \<longleftrightarrow> (\<forall>k<length (x # xs). (x # xs) ! k = 1 \<longrightarrow> (y # ys) ! k = 1)"
    by (auto simp: nth_Cons split: nat.splits)
  finally show ?case .
qed

lemma array_sum_Cons: "array_sum (r # m) = sum_list r + array_sum m"
  by (simp add: array_sum_def)

lemma masked_array_sum:
  assumes "length M = length S"
    and "\<forall>k<length M. length (M ! k) = length (S ! k)"
    and "\<forall>r \<in> set M. \<forall>x \<in> set r. x = 0 \<or> x = (1::int)"
    and "\<forall>r \<in> set S. \<forall>x \<in> set r. x = 0 \<or> x = (1::int)"
  shows "array_sum (map2 (\<lambda>rx ry. map2 (\<lambda>a b. a * b) rx ry) M S) \<le> array_sum M
       \<and> (array_sum (map2 (\<lambda>rx ry. map2 (\<lambda>a b. a * b) rx ry) M S) = array_sum M
         \<longleftrightarrow> (\<forall>a<length M. \<forall>b<length (M ! a). M ! a ! b = 1 \<longrightarrow> S ! a ! b = 1))"
  using assms
proof (induction M S rule: list_induct2)
  case Nil
  show ?case by (simp add: array_sum_def)
next
  case (Cons r M s S)
  have "0 < length (r # M)" by simp
  from Cons.prems(1) [rule_format, OF this] have len: "length r = length s" by simp
  have rest_len: "\<forall>k<length M. length (M ! k) = length (S ! k)"
  proof (intro allI impI)
    fix k assume "k < length M"
    then have "Suc k < length (r # M)" by simp
    from Cons.prems(1) [rule_format, OF this] show "length (M ! k) = length (S ! k)" by simp
  qed
  have br: "\<forall>x \<in> set r. x = 0 \<or> x = 1" and bs: "\<forall>x \<in> set s. x = 0 \<or> x = 1"
    and bM: "\<forall>r \<in> set M. \<forall>x \<in> set r. x = 0 \<or> x = (1::int)"
    and bS: "\<forall>r \<in> set S. \<forall>x \<in> set r. x = 0 \<or> x = (1::int)"
    using Cons.prems(2,3) by simp_all
  have row_le: "sum_list (map2 (\<lambda>a b. a * b) r s) \<le> sum_list r"
    by (rule masked_sum_le [OF len br bs])
  have row_eq: "sum_list (map2 (\<lambda>a b. a * b) r s) = sum_list r
         \<longleftrightarrow> (\<forall>k<length r. r ! k = 1 \<longrightarrow> s ! k = 1)"
    by (rule masked_sum_eq_iff [OF len br bs])
  note IH = Cons.IH [OF rest_len bM bS]
  have rest_le: "array_sum (map2 (\<lambda>rx ry. map2 (\<lambda>a b. a * b) rx ry) M S) \<le> array_sum M"
    using IH by blast
  have rest_eq: "array_sum (map2 (\<lambda>rx ry. map2 (\<lambda>a b. a * b) rx ry) M S) = array_sum M
         \<longleftrightarrow> (\<forall>a<length M. \<forall>b<length (M ! a). M ! a ! b = 1 \<longrightarrow> S ! a ! b = 1)"
    using IH by blast
  have le: "array_sum (map2 (\<lambda>rx ry. map2 (\<lambda>a b. a * b) rx ry) (r # M) (s # S))
        \<le> array_sum (r # M)"
    using row_le rest_le by (simp add: array_sum_Cons)
  have "array_sum (map2 (\<lambda>rx ry. map2 (\<lambda>a b. a * b) rx ry) (r # M) (s # S)) = array_sum (r # M)
      \<longleftrightarrow> sum_list (map2 (\<lambda>a b. a * b) r s) = sum_list r
          \<and> array_sum (map2 (\<lambda>rx ry. map2 (\<lambda>a b. a * b) rx ry) M S) = array_sum M"
    using sum_eq_split [OF row_le rest_le] by (simp add: array_sum_Cons)
  also have "\<dots> \<longleftrightarrow> (\<forall>k<length r. r ! k = 1 \<longrightarrow> s ! k = 1)
      \<and> (\<forall>a<length M. \<forall>b<length (M ! a). M ! a ! b = 1 \<longrightarrow> S ! a ! b = 1)"
    by (simp only: row_eq rest_eq)
  also have "\<dots> \<longleftrightarrow> (\<forall>a<length (r # M). \<forall>b<length ((r # M) ! a).
        (r # M) ! a ! b = 1 \<longrightarrow> (s # S) ! a ! b = 1)"
    by (auto simp: nth_Cons split: nat.splits)
  finally show ?case using le by blast
qed


lemma binary_iff: "binary m \<longleftrightarrow> (\<forall>r \<in> set m. \<forall>x \<in> set r. x = 0 \<or> x = 1)"
  by (simp add: binary_def list_all_iff)

lemma MONSTER_dims: "length MONSTER = 3" "length (hd MONSTER) = 20"
  "\<forall>r \<in> set MONSTER. length r = 20"
  by (simp_all add: MONSTER_def)

lemma w_h_MONSTER: "w = length MONSTER" "h = length (hd MONSTER)"
  by (simp_all add: w_h MONSTER_dims)

lemma monster_dims: "length monster = 3" "\<forall>r \<in> set monster. length r = 20"
  using MONSTER_dims by (simp_all add: monster_def)

lemma monster_binary: "\<forall>r \<in> set monster. \<forall>x \<in> set r. x = 0 \<or> x = 1"
  by (auto simp: monster_def)

lemma monster_nth:
  assumes "a < 3" "b < 20"
  shows "monster ! a ! b = 1 \<longleftrightarrow> MONSTER ! a ! b = CHR ''#''"
proof -
  have la: "a < length MONSTER" using assms(1) by (simp add: MONSTER_dims)
  then have "MONSTER ! a \<in> set MONSTER" by simp
  then have lb: "b < length (MONSTER ! a)" using assms(2) MONSTER_dims(3) by simp
  show ?thesis using la lb by (simp add: monster_def)
qed

lemma set_monster_cells:
  "set monster_cells = {(a, b). a < 3 \<and> b < 20 \<and> MONSTER ! a ! b = CHR ''#''}"
proof -
  have "length (MONSTER ! a) = 20" if "a < 3" for a
  proof -
    have "MONSTER ! a \<in> set MONSTER" using that by (simp add: MONSTER_dims)
    then show ?thesis using MONSTER_dims(3) by simp
  qed
  then show ?thesis by (auto simp: monster_cells_def MONSTER_dims)
qed

lemma monster_at_iff:
  "monster_at m i j \<longleftrightarrow>
   (\<forall>a<3. \<forall>b<20. monster ! a ! b = 1 \<longrightarrow> m ! (i + a) ! (j + b) = 1)"
proof -
  have "monster_at m i j \<longleftrightarrow> (\<forall>(a, b) \<in> set monster_cells. m ! (i + a) ! (j + b) = 1)"
    by (simp add: monster_at_def list_all_iff)
  also have "\<dots> \<longleftrightarrow> (\<forall>a<3. \<forall>b<20. MONSTER ! a ! b = CHR ''#'' \<longrightarrow> m ! (i + a) ! (j + b) = 1)"
    by (auto simp: set_monster_cells)
  also have "\<dots> \<longleftrightarrow> (\<forall>a<3. \<forall>b<20. monster ! a ! b = 1 \<longrightarrow> m ! (i + a) ! (j + b) = 1)"
    using monster_nth by blast
  finally show ?thesis .
qed

lemma array_mul_rect:
  assumes "length x = r" "length y = r" "0 < r"
    and "\<forall>row \<in> set x. length row = c" "\<forall>row \<in> set y. length row = c"
  shows "array_mul x y = Inr (map2 (\<lambda>rx ry. map2 (\<lambda>a b. a * b) rx ry) x y)"
proof -
  have nx: "x \<noteq> []" and ny: "y \<noteq> []" using assms(1-3) by auto
  have hx: "length (hd x) = c" using nx assms(4) by simp
  have hy: "length (hd y) = c" using ny assms(5) by simp
  have sx: "shape x = (r, c)" using nx assms(1) hx by (simp add: shape_def)
  have sy: "shape y = (r, c)" using ny assms(2) hy by (simp add: shape_def)
  have "map2 (\<lambda>rx ry. map2 (\<lambda>a b. a * b) (stretch c rx) (stretch c ry)) x y
      = map2 (\<lambda>rx ry. map2 (\<lambda>a b. a * b) rx ry) x y"
  proof (rule map_cong [OF refl])
    fix p assume "p \<in> set (zip x y)"
    then have "(fst p, snd p) \<in> set (zip x y)" by simp
    then have "fst p \<in> set x" "snd p \<in> set y"
      by (rule set_zip_leftD, rule set_zip_rightD)
    then have "stretch c (fst p) = fst p" "stretch c (snd p) = snd p"
      using assms(4,5) by (simp_all add: stretch_def)
    then show "(case p of (rx, ry) \<Rightarrow> map2 (\<lambda>a b. a * b) (stretch c rx) (stretch c ry))
        = (case p of (rx, ry) \<Rightarrow> map2 (\<lambda>a b. a * b) rx ry)"
      by (simp add: case_prod_beta)
  qed
  then show ?thesis
    using assms(1,2) by (simp add: array_mul_def sx sy bdim_def ebind_simps stretch_def)
qed

lemma sub_image_shape:
  assumes "square n t" "i + w \<le> n" "j + h \<le> n"
  shows "length (sub_image t i j) = w" "\<forall>row \<in> set (sub_image t i j). length row = h"
proof -
  show "length (sub_image t i j) = w"
    using assms by (simp add: sub_image_def square_def)
  show "\<forall>row \<in> set (sub_image t i j). length row = h"
  proof
    fix r assume "r \<in> set (sub_image t i j)"
    then obtain row where row: "row \<in> set (take w (drop i t))" and r: "r = take h (drop j row)"
      by (auto simp: sub_image_def)
    have "row \<in> set t" using row by (meson in_set_dropD in_set_takeD)
    then have "length row = n" using assms(1) by (simp add: square_def)
    then show "length r = h" using r assms(3) by simp
  qed
qed

lemma sub_image_nth:
  assumes "square n t" "i + w \<le> n" "j + h \<le> n" "a < w" "b < h"
  shows "sub_image t i j ! a ! b = t ! (i + a) ! (j + b)"
proof -
  have n: "length t = n" using assms(1) by (simp add: square_def)
  have "i + a < n" using assms(2,4) by simp
  then have row: "length (t ! (i + a)) = n" using square_row [OF assms(1)] by simp
  have "sub_image t i j ! a = take h (drop j (t ! (i + a)))"
    using assms(2,4) n by (simp add: sub_image_def)
  then show ?thesis using assms(3,5) row by simp
qed

lemma window_match_spec:
  assumes "square n t" "binary t" "i + w \<le> n" "j + h \<le> n"
  shows "window_match t i j = Inr (if monster_at t i j then 1 else 0)"
proof -
  let ?S = "sub_image t i j"
  note sh = sub_image_shape [OF assms(1,3,4)]
  have w3: "w = 3" and h20: "h = 20" by (simp_all add: w_h)
  have mul: "array_mul monster ?S = Inr (map2 (\<lambda>rx ry. map2 (\<lambda>a b. a * b) rx ry) monster ?S)"
    using array_mul_rect [of monster 3 ?S 20] monster_dims sh by (simp add: w3 h20)
  have bS: "\<forall>r \<in> set ?S. \<forall>x \<in> set r. x = 0 \<or> x = 1"
  proof (intro ballI)
    fix r x assume "r \<in> set ?S" "x \<in> set r"
    then obtain row where "row \<in> set (take w (drop i t))" "x \<in> set (take h (drop j row))"
      by (auto simp: sub_image_def)
    then have "row \<in> set t" "x \<in> set row"
      by (meson in_set_dropD in_set_takeD)+
    then show "x = 0 \<or> x = 1" using assms(2) by (auto simp: binary_iff)
  qed
  have lens: "length monster = length ?S" using monster_dims(1) sh(1) by (simp add: w3)
  have rows: "\<forall>k<length monster. length (monster ! k) = length (?S ! k)"
  proof (intro allI impI)
    fix k assume k: "k < length monster"
    then have "monster ! k \<in> set monster" by simp
    moreover have "?S ! k \<in> set ?S" using k lens by simp
    ultimately show "length (monster ! k) = length (?S ! k)"
      using monster_dims(2) sh(2) by (simp add: h20)
  qed
  have "array_sum (map2 (\<lambda>rx ry. map2 (\<lambda>a b. a * b) rx ry) monster ?S) = array_sum monster
      \<longleftrightarrow> (\<forall>a<length monster. \<forall>b<length (monster ! a). monster ! a ! b = 1 \<longrightarrow> ?S ! a ! b = 1)"
    using masked_array_sum [OF lens rows monster_binary bS] by blast
  also have "\<dots> \<longleftrightarrow> (\<forall>a<3. \<forall>b<20. monster ! a ! b = 1 \<longrightarrow> ?S ! a ! b = 1)"
  proof -
    have "length (monster ! a) = 20" if "a < 3" for a
    proof -
      have "monster ! a \<in> set monster" using that monster_dims(1) by simp
      then show ?thesis using monster_dims(2) by simp
    qed
    then show ?thesis by (simp add: monster_dims(1))
  qed
  also have "\<dots> \<longleftrightarrow> (\<forall>a<3. \<forall>b<20. monster ! a ! b = 1 \<longrightarrow> t ! (i + a) ! (j + b) = 1)"
    using sub_image_nth [OF assms(1,3,4)] by (simp add: w3 h20)
  also have "\<dots> \<longleftrightarrow> monster_at t i j" by (simp only: monster_at_iff)
  finally show ?thesis
    by (simp add: window_match_def mul ebind_simps monster_pixels_def)
qed


lemma count_loop_spec:
  assumes "square n t" "binary t"
    and "\<forall>(i, j) \<in> set ps. i + w \<le> n \<and> j + h \<le> n"
  shows "count_loop t ps acc = Inr (acc + int (length (filter (\<lambda>(i, j). monster_at t i j) ps)))"
  using assms(3)
proof (induction ps arbitrary: acc)
  case Nil
  show ?case by simp
next
  case (Cons p ps)
  obtain i j where p: "p = (i, j)" by (cases p)
  have b: "i + w \<le> n" "j + h \<le> n" using Cons.prems p by simp_all
  have rest: "\<forall>(i, j) \<in> set ps. i + w \<le> n \<and> j + h \<le> n" using Cons.prems by simp
  have wm: "window_match t i j = Inr (if monster_at t i j then 1 else 0)"
    by (rule window_match_spec [OF assms(1,2) b])
  show ?case
    using Cons.IH [OF rest, of "acc + (if monster_at t i j then 1 else 0)"]
    by (simp add: p wm ebind_simps)
qed

lemma py_range_placements:
  "py_range (int n - int w + 1) = [0..<n + 1 - length MONSTER]"
  "py_range (int n - int h + 1) = [0..<n + 1 - length (hd MONSTER)]"
proof -
  have "nat (int n - 3 + 1) = n + 1 - 3" by arith
  then show "py_range (int n - int w + 1) = [0..<n + 1 - length MONSTER]"
    by (simp add: py_range_def w_h MONSTER_dims)
  have "nat (int n - 20 + 1) = n + 1 - 20" by arith
  then show "py_range (int n - int h + 1) = [0..<n + 1 - length (hd MONSTER)]"
    by (simp add: py_range_def w_h MONSTER_dims)
qed

lemma count_monsters_spec:
  assumes "square n t" "binary t"
  shows "count_monsters n t = Inr (int (length (occurrences n t)))"
proof -
  have "\<forall>(i, j) \<in> set (List.product [0..<n + 1 - length MONSTER]
            [0..<n + 1 - length (hd MONSTER)]). i + w \<le> n \<and> j + h \<le> n"
    by (auto simp: MONSTER_dims w_h)
  from count_loop_spec [OF assms this, of 0] show ?thesis
    by (simp add: count_monsters_def py_range_placements occurrences_def)
qed

lemma binary_concat: "binary m \<longleftrightarrow> (\<forall>x \<in> set (concat m). x = 0 \<or> x = 1)"
  by (auto simp: binary_iff)

lemma binary_orientation:
  assumes "square n m" "binary m"
  shows "binary (orientation k m)"
proof -
  have "set (concat (orientation k m)) = set (concat m)"
    using mset_concat_orientation [OF assms(1), of k] by (rule mset_eq_setD)
  then show ?thesis using assms(2) by (simp only: binary_concat)
qed

lemma sum_list_bits:
  assumes "\<forall>x \<in> set xs. x = 0 \<or> x = (1::int)"
  shows "sum_list xs = int (length (filter (\<lambda>x. x = 1) xs))"
  using assms by (induction xs) auto

lemma array_sum_binary: "binary m \<Longrightarrow> array_sum m = int (set_pixels m)"
  by (simp add: array_sum_def set_pixels_def binary_concat sum_list_bits)

lemma set_pixels_orientation:
  assumes "square n m"
  shows "set_pixels (orientation k m) = set_pixels m"
proof -
  have "mset (filter (\<lambda>x. x = 1) (concat (orientation k m)))
      = mset (filter (\<lambda>x. x = 1) (concat m))"
    by (simp only: mset_filter mset_concat_orientation [OF assms])
  then show ?thesis unfolding set_pixels_def by (rule mset_eq_length)
qed

lemma monster_pixels_cells: "monster_pixels = int (length monster_cells)"
  by code_simp

lemma length_monster_cells: "length monster_cells = 15"
  by code_simp

text \<open>
  C2. For a square bitmap of 0/1 pixels: when orientation \<open>k\<close> of the eight is the first
  in which the monster pattern occurs (every pattern cell on a set pixel, at one placement
  at least), \<open>measure_water_roughness\<close> returns the number of set pixels of the bitmap in
  that orientation minus the number of occurrences there times the number of pattern
  cells (15); adding occurrences times pattern weight back gives the set-pixel count of
  that orientation.
\<close>

theorem roughness_when_monsters_found:
  assumes "square n img" "binary img" "k < 8"
    and "\<forall>j<k. occurrences n (orientation j img) = []"
    and "occurrences n (orientation k img) \<noteq> []"
  shows "measure_water_roughness img
           = Inr (int (set_pixels (orientation k img))
                  - int (length (occurrences n (orientation k img))) * int (length monster_cells))
       \<and> (\<exists>r. measure_water_roughness img = Inr r
              \<and> r + int (length (occurrences n (orientation k img))) * int (length monster_cells)
                  = int (set_pixels (orientation k img)))
       \<and> length monster_cells = 15"
proof -
  have n: "length img = n" using assms(1) by (simp add: square_def)
  have cnt: "count_monsters n (orientation q img)
        = Inr (int (length (occurrences n (orientation q img))))" for q
    by (rule count_monsters_spec [OF square_orientation [OF assms(1)]
          binary_orientation [OF assms(1,2)]])
  have before: "\<forall>j<k. count_monsters (length img) (orientation j img) = Inr 0"
    using assms(4) by (simp add: n cnt)
  have at: "count_monsters (length img) (orientation k img)
        = Inr (int (length (occurrences n (orientation k img))))"
    by (simp add: n cnt)
  have pos: "0 < int (length (occurrences n (orientation k img)))"
    using assms(5) by simp
  have s: "array_sum (orientation k img) = int (set_pixels (orientation k img))"
    by (rule array_sum_binary [OF binary_orientation [OF assms(1,2)]])
  have "measure_water_roughness img
           = Inr (int (set_pixels (orientation k img))
                  - int (length (occurrences n (orientation k img))) * int (length monster_cells))"
    using roughness_first_match [OF assms(3) at pos before]
    by (simp only: s monster_pixels_cells)
  then show ?thesis by (simp add: length_monster_cells)
qed

theorem roughness_when_monsters_found_witness:
  "square 20 monster_scene \<and> binary monster_scene \<and> (3::nat) < 8
   \<and> list_all (\<lambda>j. occurrences 20 (orientation j monster_scene) = []) [0..<3]
   \<and> occurrences 20 (orientation 3 monster_scene) = [(0, 0)]
   \<and> set_pixels (orientation 3 monster_scene) = 17
   \<and> measure_water_roughness monster_scene = Inr 2
   \<and> orientation 0 turned_scene = monster_scene
   \<and> measure_water_roughness turned_scene = Inr 2"
proof -
  have sq: "square 20 monster_scene" by code_simp
  have b: "binary monster_scene" by code_simp
  have k: "(3::nat) < 8" by simp
  have "(let v = orientation 0 monster_scene in occurrences 20 v) = []" by code_simp
  then have e0: "occurrences 20 (orientation 0 monster_scene) = []" by (simp only: Let_def)
  have "(let v = orientation 1 monster_scene in occurrences 20 v) = []" by code_simp
  then have e1: "occurrences 20 (orientation 1 monster_scene) = []" by (simp only: Let_def)
  have "(let v = orientation 2 monster_scene in occurrences 20 v) = []" by code_simp
  then have e2: "occurrences 20 (orientation 2 monster_scene) = []" by (simp only: Let_def)
  have o3: "orientation 3 monster_scene = monster_scene" by code_simp
  have oc: "occurrences 20 monster_scene = [(0, 0)]" by code_simp
  have sp: "set_pixels monster_scene = 17" by code_simp
  have u: "[0..<3] = [0, 1, 2::nat]" by (simp add: upt_rec)
  have el: "list_all (\<lambda>j. occurrences 20 (orientation j monster_scene) = []) [0..<3]"
    by (simp only: u list.pred_inject e0 e1 e2 simp_thms)
  have none: "\<forall>j<3. occurrences 20 (orientation j monster_scene) = []"
  proof (intro allI impI)
    fix j :: nat assume "j < 3"
    then have "j \<in> set [0..<3]" by simp
    then show "occurrences 20 (orientation j monster_scene) = []"
      using el by (simp only: list_all_iff)
  qed
  have some: "occurrences 20 (orientation 3 monster_scene) \<noteq> []" by (simp add: o3 oc)
  have m: "measure_water_roughness monster_scene = Inr 2"
    using roughness_when_monsters_found [OF sq b k none some]
    by (simp add: o3 oc sp)
  have sq': "square 20 turned_scene" by code_simp
  have b': "binary turned_scene" by code_simp
  have o: "orientation 0 turned_scene = monster_scene" by code_simp
  have z: "(0::nat) < 8" by simp
  have none': "\<forall>j<0. occurrences 20 (orientation j turned_scene) = []" by simp
  have some': "occurrences 20 (orientation 0 turned_scene) \<noteq> []" by (simp add: o oc)
  have m': "measure_water_roughness turned_scene = Inr 2"
    using roughness_when_monsters_found [OF sq' b' z none' some']
    by (simp add: o oc sp)
  have oc3: "occurrences 20 (orientation 3 monster_scene) = [(0, 0)]" by (simp only: o3 oc)
  have sp3: "set_pixels (orientation 3 monster_scene) = 17" by (simp only: o3 sp)
  show ?thesis
    by (intro conjI sq b k el oc3 sp3 m o m')
qed

text \<open>
  C7. If the monster pattern occurs in none of the eight orientations of a square bitmap
  of 0/1 pixels, \<open>measure_water_roughness\<close> returns the number of set pixels of the input
  bitmap, nothing subtracted, although the bitmap it sums is the one left by the eighth
  step.
\<close>

theorem roughness_without_monsters:
  assumes "square n img" "binary img"
    and "\<forall>k<8. occurrences n (orientation k img) = []"
  shows "measure_water_roughness img = Inr (int (set_pixels img))
       \<and> measure_water_roughness img = Inr (array_sum (orientation 7 img))"
proof -
  have n: "length img = n" using assms(1) by (simp add: square_def)
  have cnt: "count_monsters n (orientation q img)
        = Inr (int (length (occurrences n (orientation q img))))" for q
    by (rule count_monsters_spec [OF square_orientation [OF assms(1)]
          binary_orientation [OF assms(1,2)]])
  have zero: "\<forall>k<8. count_monsters (length img) (orientation k img) = Inr 0"
    using assms(3) by (simp add: n cnt)
  have r: "measure_water_roughness img = Inr (array_sum (orientation 7 img))"
    by (rule roughness_no_match [OF zero])
  have "array_sum (orientation 7 img) = int (set_pixels (orientation 7 img))"
    by (rule array_sum_binary [OF binary_orientation [OF assms(1,2)]])
  also have "\<dots> = int (set_pixels img)"
    by (simp only: set_pixels_orientation [OF assms(1)])
  finally show ?thesis using r by simp
qed

theorem roughness_without_monsters_witness:
  "square 20 calm_scene \<and> binary calm_scene
   \<and> list_all (\<lambda>k. occurrences 20 (orientation k calm_scene) = []) [0..<8]
   \<and> set_pixels calm_scene = 76
   \<and> measure_water_roughness calm_scene = Inr 76"
proof -
  have sq: "square 20 calm_scene" by code_simp
  have b: "binary calm_scene" by code_simp
  have r: "rot90 calm_scene 1 = calm_scene" by code_simp
  have f: "flip_cols calm_scene = calm_scene" by code_simp
  have o0: "orientation 0 calm_scene = calm_scene"
    by (simp only: orientation_steps(1) r)
  have o1: "orientation 1 calm_scene = calm_scene"
    by (simp only: orientation_steps(2) o0 r)
  have o2: "orientation 2 calm_scene = calm_scene"
    by (simp only: orientation_steps(3) o1 r)
  have o3: "orientation 3 calm_scene = calm_scene"
    by (simp only: orientation_steps(4) o2 r)
  have o4: "orientation 4 calm_scene = calm_scene"
    by (simp only: orientation_steps(5) o3 f r)
  have o5: "orientation 5 calm_scene = calm_scene"
    by (simp only: orientation_steps(6) o4 r)
  have o6: "orientation 6 calm_scene = calm_scene"
    by (simp only: orientation_steps(7) o5 r)
  have o7: "orientation 7 calm_scene = calm_scene"
    by (simp only: orientation_steps(8) o6 r)
  have o: "orientation k calm_scene = calm_scene" if "k < 8" for k
  proof -
    have "k \<in> set [0..<8]" using that by simp
    then have "k \<in> {0, 1, 2, 3, 4, 5, 6, 7}" by (simp only: upt_8) simp
    then show ?thesis using o0 o1 o2 o3 o4 o5 o6 o7 by auto
  qed
  have z: "occurrences 20 calm_scene = []" by code_simp
  have c: "\<forall>k<8. occurrences 20 (orientation k calm_scene) = []"
    using o z by simp
  have c': "list_all (\<lambda>k. occurrences 20 (orientation k calm_scene) = []) [0..<8]"
    using c by (simp add: list_all_iff)
  have s: "set_pixels calm_scene = 76" by code_simp
  have "measure_water_roughness calm_scene = Inr 76"
    using roughness_without_monsters [OF sq b c] s by simp
  then show ?thesis
    by (intro conjI sq b c' s)
qed

section \<open>match_two_tiles: proofs\<close>

lemma ebind_Inr_iff: "ebind x f = Inr y \<longleftrightarrow> (\<exists>v. x = Inr v \<and> f v = Inr y)"
  by (cases x) (simp_all add: ebind_def)

lemma index_of_Inr:
  "index_of xs x = Inr k \<Longrightarrow> k < length xs \<and> xs ! k = x \<and> (\<forall>j<k. xs ! j \<noteq> x)"
proof (induction xs arbitrary: k)
  case Nil
  then show ?case by simp
next
  case (Cons y ys)
  show ?case
  proof (cases "y = x")
    case True
    then show ?thesis using Cons.prems by simp
  next
    case False
    then obtain k' where k': "index_of ys x = Inr k'" "k = Suc k'"
      using Cons.prems by (auto simp: ebind_Inr_iff)
    from Cons.IH [OF k'(1)] False k'(2) show ?thesis
      by (auto simp: nth_Cons split: nat.splits)
  qed
qed

lemma index_of_mem: "x \<in> set xs \<Longrightarrow> \<exists>k. index_of xs x = Inr k"
  by (induction xs) (auto simp: ebind_simps)

lemma set_pop_Inr:
  "set_pop ch s = Inr (x, rest) \<Longrightarrow> x \<in> set s"
  by (auto simp: set_pop_def Let_def split: if_splits)

lemma set_pop_nonempty: "s \<noteq> [] \<Longrightarrow> \<exists>x rest. set_pop ch s = Inr (x, rest) \<and> x \<in> set s"
  by (simp add: set_pop_def Let_def)

lemma check_match_Some:
  assumes "check_match ch static_tile other_tile me = Inr (Some i)"
  shows "\<exists>e ls lo j. e \<in> set me \<and> list_edges static_tile = Inr ls \<and> index_of ls e = Inr i
           \<and> list_edges other_tile = Inr lo \<and> index_of lo e = Inr j
           \<and> (i, j) \<in> {(0, 1), (1, 0), (2, 3), (3, 2)}"
  using assms set_pop_Inr [of ch me]
  by (auto simp: check_match_def ebind_Inr_iff split: prod.splits if_splits)


lemma after_steps_Nil: "after_steps [] t = t"
  by (simp add: after_steps_def)

lemma after_steps_Cons:
  "after_steps (i # steps) t =
   after_steps steps (rotate_tile (if i = 4 then reflect_left_right t else t) 1)"
  by (simp add: after_steps_def rotate_tile_def reflect_left_right_def orient_step_def)

lemma oriented_after_steps: "oriented k t = after_steps [0..<Suc k] t"
  by (simp add: oriented_def orientation_def after_steps_def)

lemma finds_match_iff:
  "finds_match ch static_tile other2 \<longleftrightarrow>
   (\<exists>me s. matching_edges_of other2 static_tile = Inr me \<and> me \<noteq> []
      \<and> check_match ch static_tile other2 me = Inr (Some s))"
  by (auto simp: finds_match_def split: sum.splits option.splits)

lemma match_steps_Some:
  assumes "match_steps ch static_tile steps m other_tile = (Inr (Bound (Some s)), other')"
    and "\<forall>s'. m \<noteq> Bound (Some s')"
  shows "\<exists>q<length steps. other' = after_steps (take (Suc q) steps) other_tile
           \<and> (\<exists>me. matching_edges_of other' static_tile = Inr me \<and> me \<noteq> []
                \<and> check_match ch static_tile other' me = Inr (Some s))
           \<and> (\<forall>p<q. \<not> finds_match ch static_tile (after_steps (take (Suc p) steps) other_tile))"
  using assms
proof (induction steps arbitrary: m other_tile)
  case Nil
  then show ?case by simp
next
  case (Cons i steps)
  define other2 where "other2 = rotate_tile (if i = 4 then reflect_left_right other_tile else other_tile) 1"
  have a1: "after_steps (i # xs) other_tile = after_steps xs other2" for xs
    by (simp add: after_steps_Cons other2_def)
  show ?case
  proof (cases "matching_edges_of other2 static_tile")
    case (Inl e)
    then show ?thesis using Cons.prems(1) by (simp add: other2_def [symmetric] Let_def)
  next
    case (Inr me)
    show ?thesis
    proof (cases "me = []")
      case True
      then have nf: "\<not> finds_match ch static_tile other2"
        using Inr by (simp add: finds_match_def)
      from True Inr Cons.prems(1)
      have "match_steps ch static_tile steps m other2 = (Inr (Bound (Some s)), other')"
        by (simp add: other2_def [symmetric] Let_def)
      from Cons.IH [OF this Cons.prems(2)] obtain q where q: "q < length steps"
        "other' = after_steps (take (Suc q) steps) other2"
        "\<exists>me. matching_edges_of other' static_tile = Inr me \<and> me \<noteq> []
                \<and> check_match ch static_tile other' me = Inr (Some s)"
        "\<forall>p<q. \<not> finds_match ch static_tile (after_steps (take (Suc p) steps) other2)"
        by blast
      have "\<forall>p<Suc q. \<not> finds_match ch static_tile (after_steps (take (Suc p) (i # steps)) other_tile)"
      proof (intro allI impI)
        fix p assume "p < Suc q"
        then show "\<not> finds_match ch static_tile (after_steps (take (Suc p) (i # steps)) other_tile)"
          using nf q(4) by (cases p) (simp_all add: a1 after_steps_Nil)
      qed
      then show ?thesis using q(1,2,3) by (intro exI [of _ "Suc q"]) (simp add: a1 after_steps_Nil)
    next
      case False
      show ?thesis
      proof (cases "check_match ch static_tile other2 me")
        case (Inl e)
        then show ?thesis using Cons.prems(1) Inr False
          by (simp add: other2_def [symmetric] Let_def)
      next
        case cm: (Inr v)
        show ?thesis
        proof (cases v)
          case None
          then have nf: "\<not> finds_match ch static_tile other2"
            using Inr cm by (simp add: finds_match_def)
          from None cm False Inr Cons.prems(1)
          have "match_steps ch static_tile steps (Bound None) other2 = (Inr (Bound (Some s)), other')"
            by (simp add: other2_def [symmetric] Let_def)
          from Cons.IH [OF this] obtain q where q: "q < length steps"
            "other' = after_steps (take (Suc q) steps) other2"
            "\<exists>me. matching_edges_of other' static_tile = Inr me \<and> me \<noteq> []
                    \<and> check_match ch static_tile other' me = Inr (Some s)"
            "\<forall>p<q. \<not> finds_match ch static_tile (after_steps (take (Suc p) steps) other2)"
            by auto
          have "\<forall>p<Suc q. \<not> finds_match ch static_tile (after_steps (take (Suc p) (i # steps)) other_tile)"
          proof (intro allI impI)
            fix p assume "p < Suc q"
            then show "\<not> finds_match ch static_tile (after_steps (take (Suc p) (i # steps)) other_tile)"
              using nf q(4) by (cases p) (simp_all add: a1 after_steps_Nil)
          qed
          then show ?thesis using q(1,2,3) by (intro exI [of _ "Suc q"]) (simp add: a1 after_steps_Nil)
        next
          case (Some s')
          with cm False Inr Cons.prems(1) have "s' = s" "other' = other2"
            by (simp_all add: other2_def [symmetric] Let_def)
          then show ?thesis using Inr False cm Some
            by (intro exI [of _ 0]) (simp add: a1 after_steps_Nil)
        qed
      qed
    qed
  qed
qed


lemma list_edges_square:
  assumes "square n (image_tile t)" "0 < n"
  shows "list_edges t = Inr [hd (image_tile t), last (image_tile t),
                             map hd (image_tile t), map last (image_tile t)]"
proof -
  have ne: "image_tile t \<noteq> []" using assms by (auto simp: square_def)
  then have "hd (image_tile t) \<in> set (image_tile t)" by simp
  then have "length (hd (image_tile t)) = n" using assms(1) by (simp add: square_def)
  then have "hd (image_tile t) \<noteq> []" using assms(2) by auto
  then show ?thesis using ne by (simp add: list_edges_def Let_def)
qed

lemma edges_set:
  "edges t = Inr es \<Longrightarrow> \<exists>ls. list_edges t = Inr ls \<and> set es = set ls"
  by (auto simp: edges_def split: sum.splits)

lemma matching_edges_of_square:
  assumes "square n1 (image_tile static_tile)" "0 < n1"
    and "square n2 (image_tile other2)" "0 < n2"
  shows "\<exists>me ls lo. matching_edges_of other2 static_tile = Inr me
           \<and> list_edges static_tile = Inr ls \<and> list_edges other2 = Inr lo
           \<and> set me = set lo \<inter> set ls"
proof -
  obtain ls where ls: "list_edges static_tile = Inr ls"
    using list_edges_square [OF assms(1,2)] by blast
  obtain lo where lo: "list_edges other2 = Inr lo"
    using list_edges_square [OF assms(3,4)] by blast
  have es: "edges static_tile = Inr (remdups ls)" using ls by (simp add: edges_def)
  have eo: "edges other2 = Inr (remdups lo)" using lo by (simp add: edges_def)
  have m: "matching_edges_of other2 static_tile = Inr (inter_set (remdups lo) (remdups ls))"
    by (simp add: matching_edges_of_def es eo ebind_simps)
  have "set (inter_set (remdups lo) (remdups ls)) = set lo \<inter> set ls"
    by (auto simp: inter_set_def)
  then show ?thesis using m ls lo by blast
qed

lemma check_match_total:
  assumes "list_edges static_tile = Inr ls" "list_edges other2 = Inr lo"
    and "set me \<subseteq> set lo \<inter> set ls" "me \<noteq> []"
  shows "\<exists>v. check_match ch static_tile other2 me = Inr v"
proof -
  obtain e rest where p: "set_pop ch me = Inr (e, rest)" "e \<in> set me"
    using set_pop_nonempty [OF assms(4)] by blast
  have "e \<in> set ls" "e \<in> set lo" using p(2) assms(3) by auto
  then obtain i j where ij: "index_of ls e = Inr i" "index_of lo e = Inr j"
    using index_of_mem [of e ls] index_of_mem [of e lo] by auto
  have "check_match ch static_tile other2 me =
        (if (i, j) \<in> {(0, 1), (1, 0), (2, 3), (3, 2)} then Inr (Some i) else Inr None)"
    by (simp only: check_match_def p(1) assms(1,2) ij ebind_simps prod.case)
  then show ?thesis by (cases "(i, j) \<in> {(0, 1), (1, 0), (2, 3), (3, 2)}") simp_all
qed

lemma square_turn:
  assumes "square n (image_tile t)"
  shows "square n (image_tile (rotate_tile (if i = 4 then reflect_left_right t else t) 1))"
  using square_rot90 [OF assms, of 1] square_rot90 [OF square_flip_cols [OF assms], of 1]
  by (simp add: rotate_tile_def reflect_left_right_def)

lemma match_steps_exhaust:
  assumes "square n1 (image_tile static_tile)" "0 < n1"
    and "square n2 (image_tile other_tile)" "0 < n2"
    and "\<forall>q<length steps. \<not> finds_match ch static_tile (after_steps (take (Suc q) steps) other_tile)"
  shows "match_steps ch static_tile steps m other_tile =
         (Inr (if \<exists>q<length steps. shares_edge static_tile (after_steps (take (Suc q) steps) other_tile)
               then Bound None else m),
          after_steps steps other_tile)"
  using assms(3,5)
proof (induction steps arbitrary: m other_tile)
  case Nil
  show ?case by (simp add: after_steps_Nil)
next
  case (Cons i steps)
  define other2 where "other2 = rotate_tile (if i = 4 then reflect_left_right other_tile else other_tile) 1"
  have a1: "after_steps (i # xs) other_tile = after_steps xs other2" for xs
    by (simp add: after_steps_Cons other2_def)
  have sq2: "square n2 (image_tile other2)"
    unfolding other2_def by (rule square_turn [OF Cons.prems(1)])
  have nf0: "\<not> finds_match ch static_tile other2"
  proof -
    have "0 < length (i # steps)" by simp
    from Cons.prems(2) [rule_format, OF this] show ?thesis
      by (simp add: a1 after_steps_Nil)
  qed
  have nfr: "\<forall>q<length steps. \<not> finds_match ch static_tile (after_steps (take (Suc q) steps) other2)"
  proof (intro allI impI)
    fix q assume "q < length steps"
    then have "Suc q < length (i # steps)" by simp
    from Cons.prems(2) [rule_format, OF this]
    show "\<not> finds_match ch static_tile (after_steps (take (Suc q) steps) other2)"
      by (simp add: a1)
  qed
  have ex: "(\<exists>q<length (i # steps). shares_edge static_tile (after_steps (take (Suc q) (i # steps)) other_tile))
        \<longleftrightarrow> shares_edge static_tile other2
            \<or> (\<exists>q<length steps. shares_edge static_tile (after_steps (take (Suc q) steps) other2))"
    (is "?L \<longleftrightarrow> ?A \<or> ?B")
  proof
    assume ?L
    then obtain q where q: "q < length (i # steps)"
      "shares_edge static_tile (after_steps (take (Suc q) (i # steps)) other_tile)" by blast
    show "?A \<or> ?B"
    proof (cases q)
      case 0
      then show ?thesis using q(2) by (simp add: a1 after_steps_Nil)
    next
      case (Suc q')
      then show ?thesis using q by (auto simp: a1)
    qed
  next
    assume "?A \<or> ?B"
    then show ?L
    proof
      assume ?A
      then show ?L by (intro exI [of _ 0]) (simp add: a1 after_steps_Nil)
    next
      assume ?B
      then obtain q where "q < length steps"
        "shares_edge static_tile (after_steps (take (Suc q) steps) other2)" by blast
      then show ?L by (intro exI [of _ "Suc q"]) (simp add: a1)
    qed
  qed
  obtain me ls lo where me: "matching_edges_of other2 static_tile = Inr me"
    "list_edges static_tile = Inr ls" "list_edges other2 = Inr lo" "set me = set lo \<inter> set ls"
    using matching_edges_of_square [OF assms(1,2) sq2 assms(4)] by blast
  note IH = Cons.IH [OF sq2 nfr]
  show ?case
  proof (cases "me = []")
    case True
    then have "\<not> shares_edge static_tile other2" using me(1) by (simp add: shares_edge_def)
    moreover have "match_steps ch static_tile (i # steps) m other_tile =
          match_steps ch static_tile steps m other2"
      using True me(1) by (simp add: other2_def [symmetric] Let_def)
    ultimately show ?thesis using IH [of m] by (simp only: ex a1) simp
  next
    case False
    then have sh: "shares_edge static_tile other2" using me(1) by (simp add: shares_edge_def)
    obtain v where v: "check_match ch static_tile other2 me = Inr v"
      using check_match_total [OF me(2,3) _ False] me(4) by blast
    have "v = None"
      using nf0 v me(1) False by (cases v) (auto simp: finds_match_def)
    then have "match_steps ch static_tile (i # steps) m other_tile =
          match_steps ch static_tile steps (Bound None) other2"
      using False me(1) v by (simp add: other2_def [symmetric] Let_def)
    then show ?thesis using IH [of "Bound None"] sh by (simp only: ex a1) simp
  qed
qed


lemma match_two_tiles_Some:
  assumes "match_two_tiles ch static_tile other_tile = (Inr (Some i), other')"
  shows "\<exists>k<8. other' = oriented k other_tile
           \<and> finds_match ch static_tile (oriented k other_tile)
           \<and> (\<forall>p<k. \<not> finds_match ch static_tile (oriented p other_tile))
           \<and> (\<exists>e ls lo j. list_edges static_tile = Inr ls \<and> list_edges other' = Inr lo
                 \<and> index_of ls e = Inr i \<and> index_of lo e = Inr j
                 \<and> i < length ls \<and> j < length lo \<and> ls ! i = e \<and> lo ! j = e
                 \<and> (i, j) \<in> {(0, 1), (1, 0), (2, 3), (3, 2)})"
proof -
  from assms have ms: "match_steps ch static_tile [0..<8] Unbound other_tile
      = (Inr (Bound (Some i)), other')"
    by (auto simp: match_two_tiles_def split: prod.splits sum.splits binding.splits)
  have "\<forall>s'. Unbound \<noteq> Bound (Some s')" by simp
  from match_steps_Some [OF ms this] obtain q me where q: "q < 8"
    "other' = after_steps (take (Suc q) [0..<8]) other_tile"
    "matching_edges_of other' static_tile = Inr me" "me \<noteq> []"
    "check_match ch static_tile other' me = Inr (Some i)"
    "\<forall>p<q. \<not> finds_match ch static_tile (after_steps (take (Suc p) [0..<8]) other_tile)"
    by auto
  have tk: "take (Suc p) [0..<8] = [0..<Suc p]" if "p \<le> q" for p
    using that q(1) by (simp add: take_upt)
  have o: "other' = oriented q other_tile"
    using q(2) by (simp add: tk oriented_after_steps)
  have before: "\<forall>p<q. \<not> finds_match ch static_tile (oriented p other_tile)"
    using q(6) by (simp add: tk oriented_after_steps)
  have found: "finds_match ch static_tile (oriented q other_tile)"
    using q(3,4,5) unfolding o finds_match_iff by blast
  from check_match_Some [OF q(5)] obtain e ls lo j where e:
    "list_edges static_tile = Inr ls" "index_of ls e = Inr i"
    "list_edges other' = Inr lo" "index_of lo e = Inr j"
    "(i, j) \<in> {(0, 1), (1, 0), (2, 3), (3, 2)}"
    by blast
  from index_of_Inr [OF e(2)] index_of_Inr [OF e(4)]
  have "i < length ls" "ls ! i = e" "j < length lo" "lo ! j = e" by simp_all
  then show ?thesis using q(1) o before found e by blast
qed

lemma match_two_tiles_exhaust:
  assumes "square n1 (image_tile static_tile)" "0 < n1"
    and "square n2 (image_tile other_tile)" "0 < n2"
    and "\<forall>k<8. \<not> finds_match ch static_tile (oriented k other_tile)"
  shows "match_two_tiles ch static_tile other_tile =
            (if \<exists>k<8. shares_edge static_tile (oriented k other_tile)
             then Inr None else Inl UnboundLocalError,
             oriented 7 other_tile)"
proof -
  have tk: "take (Suc q) [0..<8] = [0..<Suc q]" if "q < 8" for q
    using that by (simp add: take_upt)
  have nf: "\<forall>q<length [0..<8::nat]. \<not> finds_match ch static_tile
      (after_steps (take (Suc q) [0..<8]) other_tile)"
    using assms(5) by (simp add: tk oriented_after_steps)
  have sh: "(\<exists>q<length [0..<8::nat]. shares_edge static_tile
      (after_steps (take (Suc q) [0..<8]) other_tile))
      \<longleftrightarrow> (\<exists>k<8. shares_edge static_tile (oriented k other_tile))"
    by (simp add: tk oriented_after_steps cong: conj_cong)
  have fin: "after_steps [0..<8] other_tile = oriented 7 other_tile"
    by (simp add: oriented_after_steps)
  have "match_steps ch static_tile [0..<8] Unbound other_tile =
        (Inr (if \<exists>k<8. shares_edge static_tile (oriented k other_tile)
              then Bound None else Unbound), oriented 7 other_tile)"
    using match_steps_exhaust [OF assms(1-4) nf, of Unbound] by (simp only: sh fin)
  then show ?thesis by (simp add: match_two_tiles_def)
qed

lemma all_less_8: "(\<forall>k<8. P k) \<longleftrightarrow> list_all P [0, 1, 2, 3, 4, 5, 6, 7::nat]"
proof -
  have "(\<forall>k<8. P k) \<longleftrightarrow> (\<forall>k \<in> set [0..<8]. P k)" by auto
  then show ?thesis by (simp only: upt_8 list_all_iff)
qed

text \<open>
  C1. Whenever \<open>match_two_tiles\<close> returns a side index \<open>i\<close>, the other tile has been
  left in one of the eight attempted orientations (the first in which the loop body
  finds a valid match), and there is a shared edge whose first position in the static
  tile's ordered edge list \<open>[top, bottom, left, right]\<close> is \<open>i\<close> and whose first position
  \<open>j\<close> in the turned other tile's ordered edge list makes \<open>(i, j)\<close> one of the
  opposite-side pairs (0,1), (1,0), (2,3), (3,2).
\<close>

theorem match_two_tiles_side:
  assumes "match_two_tiles ch static_tile other_tile = (Inr (Some i), other')"
  shows "\<exists>k<8. other' = oriented k other_tile
           \<and> finds_match ch static_tile (oriented k other_tile)
           \<and> (\<forall>p<k. \<not> finds_match ch static_tile (oriented p other_tile))
           \<and> (\<exists>e ls lo j. list_edges static_tile = Inr ls \<and> list_edges other' = Inr lo
                 \<and> index_of ls e = Inr i \<and> index_of lo e = Inr j
                 \<and> i < length ls \<and> j < length lo \<and> ls ! i = e \<and> lo ! j = e
                 \<and> (i, j) \<in> {(0, 1), (1, 0), (2, 3), (3, 2)})"
  using assms by (rule match_two_tiles_Some)

theorem match_two_tiles_side_witness:
  "match_two_tiles first_choice static_ex other_ex = (Inr (Some 3), oriented 1 other_ex)
   \<and> list_edges static_ex = Inr [[1, 0, 0], [1, 1, 1], [1, 1, 1], [0, 1, 1]]
   \<and> list_edges (oriented 1 other_ex) = Inr [[0, 0, 0], [1, 1, 0], [0, 1, 1], [0, 0, 0]]
   \<and> (\<exists>k<8. oriented 1 other_ex = oriented k other_ex
        \<and> finds_match first_choice static_ex (oriented k other_ex)
        \<and> (\<forall>p<k. \<not> finds_match first_choice static_ex (oriented p other_ex))
        \<and> (\<exists>e ls lo j. list_edges static_ex = Inr ls
              \<and> list_edges (oriented 1 other_ex) = Inr lo
              \<and> index_of ls e = Inr 3 \<and> index_of lo e = Inr j
              \<and> 3 < length ls \<and> j < length lo \<and> ls ! 3 = e \<and> lo ! j = e
              \<and> (3::nat, j) \<in> {(0, 1), (1, 0), (2, 3), (3, 2)}))"
proof -
  have m: "match_two_tiles first_choice static_ex other_ex = (Inr (Some 3), oriented 1 other_ex)"
    by code_simp
  have ls: "list_edges static_ex = Inr [[1, 0, 0], [1, 1, 1], [1, 1, 1], [0, 1, 1]]"
    by code_simp
  have lo: "list_edges (oriented 1 other_ex) = Inr [[0, 0, 0], [1, 1, 0], [0, 1, 1], [0, 0, 0]]"
    by code_simp
  show ?thesis
    by (intro conjI m ls lo match_two_tiles_side [OF m])
qed

section \<open>The placement step: proofs\<close>

lemma locate_Inr:
  assumes "locate g c = Inr (i, j)"
  shows "i < length g \<and> j < length (g ! i) \<and> g ! i ! j = c"
proof -
  define ps where "ps = [(i, j). i \<leftarrow> [0..<length g], j \<leftarrow> [0..<length (g ! i)], g ! i ! j = c]"
  have mem: "set ps = {(i, j). i < length g \<and> j < length (g ! i) \<and> g ! i ! j = c}"
    by (auto simp: ps_def)
  from assms have "ps \<noteq> []" "hd ps = (i, j)"
    by (auto simp: locate_def ps_def [symmetric] split: list.splits)
  then have "(i, j) \<in> set ps" by (metis hd_in_set)
  then show ?thesis using mem by auto
qed

lemma np_index_nat: "j < n \<Longrightarrow> np_index n (int j) = Inr j"
  by (simp add: np_index_def)

lemma np_index_succ: "j + 1 < n \<Longrightarrow> np_index n (int j + 1) = Inr (j + 1)"
  by (simp add: np_index_def nat_add_distrib)

lemma np_index_minus_one: "0 < n \<Longrightarrow> np_index n (- 1) = Inr (n - 1)"
  by (auto simp: np_index_def nat_diff_distrib')

lemma np_index_pred: "0 < j \<Longrightarrow> j < n \<Longrightarrow> np_index n (int j - 1) = Inr (j - 1)"
  by (auto simp: np_index_def nat_diff_distrib')

lemma place_top_row0:
  assumes "square n id_grid" "locate id_grid current_id = Inr (0, j)"
  shows "place_neighbour id_grid current_id neighbour (Some 0) =
         Inr (id_grid[n - 1 := (id_grid ! (n - 1))[j := neighbour]])"
proof -
  from locate_Inr [OF assms(2)] have l: "0 < length id_grid" "j < length (id_grid ! 0)"
    by simp_all
  have n: "length id_grid = n" "0 < n" using assms(1) l by (simp_all add: square_def)
  have "length (id_grid ! 0) = n" using square_row [OF assms(1)] n by simp
  then have j: "j < n" using l by simp
  have "length (id_grid ! (n - 1)) = n" using square_row [OF assms(1), of "n - 1"] n by simp
  then show ?thesis
    using assms(2) n j
    by (simp add: place_neighbour_def grid_set_def ebind_simps np_index_minus_one np_index_nat)
qed

lemma place_left_col0:
  assumes "square n id_grid" "locate id_grid current_id = Inr (i, 0)"
  shows "place_neighbour id_grid current_id neighbour (Some 2) =
         Inr (id_grid[i := (id_grid ! i)[n - 1 := neighbour]])"
proof -
  from locate_Inr [OF assms(2)] have l: "i < length id_grid" "0 < length (id_grid ! i)"
    by simp_all
  have n: "length id_grid = n" using assms(1) by (simp add: square_def)
  have r: "length (id_grid ! i) = n" using square_row [OF assms(1)] l n by simp
  then show ?thesis
    using assms(2) n l
    by (simp add: place_neighbour_def grid_set_def ebind_simps np_index_minus_one np_index_nat)
qed

lemma place_other_is_right:
  assumes "matched_edge \<noteq> Some 0" "matched_edge \<noteq> Some 1" "matched_edge \<noteq> Some 2"
  shows "place_neighbour id_grid current_id neighbour matched_edge =
         place_neighbour id_grid current_id neighbour (Some 3)"
  using assms by (simp add: place_neighbour_def)

lemma place_right:
  assumes "square n id_grid" "locate id_grid current_id = Inr (i, j)" "j + 1 < n"
  shows "place_neighbour id_grid current_id neighbour (Some 3) =
         Inr (id_grid[i := (id_grid ! i)[j + 1 := neighbour]])"
proof -
  from locate_Inr [OF assms(2)] have l: "i < length id_grid" by simp
  have n: "length id_grid = n" using assms(1) by (simp add: square_def)
  have r: "length (id_grid ! i) = n" using square_row [OF assms(1)] l n by simp
  then show ?thesis
    using assms(2,3) n l
    by (simp add: place_neighbour_def grid_set_def ebind_simps np_index_succ np_index_nat)
qed

lemma set_pop_singleton: "set_pop ch [x] = Inr (x, [])"
  by (simp add: set_pop_def)

lemma check_match_singleton:
  "check_match ch static_tile other2 [x] = check_match first_choice static_tile other2 [x]"
  by (simp add: check_match_def set_pop_singleton)

lemma finds_match_singleton:
  assumes "matching_edges_of other2 static_tile = Inr me" "length me \<le> 1"
  shows "finds_match ch static_tile other2 = finds_match first_choice static_tile other2"
proof (cases me)
  case Nil
  then show ?thesis using assms(1) by (simp add: finds_match_def)
next
  case (Cons x xs)
  then have "me = [x]" using assms(2) by simp
  then show ?thesis using assms(1) check_match_singleton [of ch static_tile other2 x]
    by (simp add: finds_match_def)
qed

lemma one_shared_no_match_any:
  "one_shared_no_match static_tile other2 \<Longrightarrow> \<not> finds_match ch static_tile other2"
  using finds_match_singleton [of other2 static_tile _ ch]
  by (auto simp: one_shared_no_match_def split: sum.splits)

lemma other_none_never_matches:
  "\<forall>k<8. \<not> finds_match ch static_ex (oriented k other_none)"
proof -
  have "\<forall>k<8. one_shared_no_match static_ex (oriented k other_none)"
    unfolding all_less_8 by code_simp
  then show ?thesis using one_shared_no_match_any by blast
qed

lemma other_none_result:
  "match_two_tiles ch static_ex other_none = (Inr None, oriented 7 other_none)"
proof -
  have s1: "square 3 (image_tile static_ex)" by code_simp
  have s2: "square 3 (image_tile other_none)" by code_simp
  have "shares_edge static_ex (oriented 7 other_none)" by code_simp
  then have ex: "\<exists>k<8. shares_edge static_ex (oriented k other_none)"
    by (intro exI [of _ 7]) simp
  show ?thesis
    using match_two_tiles_exhaust [OF s1 _ s2 _ other_none_never_matches, of ch] ex by simp
qed

text \<open>
  C5. The search can exhaust all eight attempted orientations without a valid
  opposite-side match and still return normally. For the 3 by 3 tiles \<open>static_ex\<close>
  (\<open>#..\<close>, \<open>#.#\<close>, \<open>###\<close>) and \<open>other_none\<close> (\<open>..#\<close>, \<open>.#.\<close>, \<open>..#\<close>) no orientation
  of the eight passes \<open>check_match\<close>, yet \<open>match_two_tiles\<close> raises nothing: it returns
  Python's \<open>None\<close>, the value \<open>check_match\<close> bound to \<open>m\<close> in an orientation that shared
  an edge, whatever \<open>set.pop\<close> chooses. The function is annotated \<open>-> int\<close>, and when no
  orientation shares an edge at all the same loop ends in \<open>UnboundLocalError\<close>
  (lemma \<open>match_two_tiles_exhaust\<close> gives both outcomes for all well-formed tiles).
\<close>

theorem exhausted_search_returns_None:
  "square 3 (image_tile static_ex) \<and> square 3 (image_tile other_none)
   \<and> list_all (\<lambda>k. \<not> finds_match ch static_ex (oriented k other_none)) [0..<8]
   \<and> match_two_tiles ch static_ex other_none = (Inr None, oriented 7 other_none)
   \<and> (\<forall>e. fst (match_two_tiles ch static_ex other_none) \<noteq> Inl e)"
proof -
  have s1: "square 3 (image_tile static_ex)" by code_simp
  have s2: "square 3 (image_tile other_none)" by code_simp
  have nf: "list_all (\<lambda>k. \<not> finds_match ch static_ex (oriented k other_none)) [0..<8]"
    using other_none_never_matches [of ch] by (simp add: list_all_iff)
  have r: "match_two_tiles ch static_ex other_none = (Inr None, oriented 7 other_none)"
    by (rule other_none_result)
  have e: "\<forall>e. fst (match_two_tiles ch static_ex other_none) \<noteq> Inl e"
    by (simp add: r)
  show ?thesis
    by (intro conjI s1 s2 nf r e)
qed

theorem exhausted_search_returns_None_witness:
  "list_all (\<lambda>k. \<not> finds_match first_choice static_ex (oriented k other_none)) [0..<8]
   \<and> match_two_tiles first_choice static_ex other_none = (Inr None, oriented 7 other_none)
   \<and> image_tile static_ex = [[1, 0, 0], [1, 0, 1], [1, 1, 1]]
   \<and> image_tile other_none = [[0, 0, 1], [0, 1, 0], [0, 0, 1]]"
proof -
  note t = exhausted_search_returns_None [of first_choice]
  have a: "list_all (\<lambda>k. \<not> finds_match first_choice static_ex (oriented k other_none)) [0..<8]"
    by (rule t [THEN conjunct2, THEN conjunct2, THEN conjunct1])
  have b: "match_two_tiles first_choice static_ex other_none = (Inr None, oriented 7 other_none)"
    by (rule t [THEN conjunct2, THEN conjunct2, THEN conjunct2, THEN conjunct1])
  have c: "image_tile static_ex = [[1, 0, 0], [1, 0, 1], [1, 1, 1]]" by code_simp
  have d: "image_tile other_none = [[0, 0, 1], [0, 1, 0], [0, 0, 1]]" by code_simp
  show ?thesis
    by (intro conjI a b c d)
qed

text \<open>
  C9. There is a pair of tiles (\<open>static_ex\<close>, \<open>other_none\<close>) for which the eighth
  attempted orientation shares exactly one edge with the static tile, that edge fails
  the opposite-side check, and \<open>match_two_tiles\<close> returns Python's \<open>None\<close>, whatever
  \<open>set.pop\<close> chooses. The placement step treats every result other than 0, 1 and 2,
  \<open>None\<close> included, as side right: when column \<open>j + 1\<close> exists it writes the neighbour
  at \<open>(i, j + 1)\<close>.
\<close>

theorem none_result_placed_right:
  "match_two_tiles ch static_ex other_none = (Inr None, oriented 7 other_none)
   \<and> matching_edges_of (oriented 7 other_none) static_ex = Inr [[1, 0, 0]]
   \<and> check_match ch static_ex (oriented 7 other_none) [[1, 0, 0]] = Inr None
   \<and> match_and_place ch grid_corner static_ex other_none
       = Inr ([[11, 13, 0], [0, 0, 0], [0, 0, 0]], oriented 7 other_none)
   \<and> (matched_edge \<noteq> Some 0 \<and> matched_edge \<noteq> Some 1 \<and> matched_edge \<noteq> Some 2 \<longrightarrow>
        place_neighbour id_grid current_id neighbour matched_edge
        = place_neighbour id_grid current_id neighbour (Some 3))
   \<and> (square n id_grid \<and> locate id_grid current_id = Inr (i, j) \<and> j + 1 < n \<longrightarrow>
        place_neighbour id_grid current_id neighbour None
        = Inr (id_grid[i := (id_grid ! i)[j + 1 := neighbour]]))"
proof (intro conjI impI)
  show m: "match_two_tiles ch static_ex other_none = (Inr None, oriented 7 other_none)"
    by (rule other_none_result)
  show "matching_edges_of (oriented 7 other_none) static_ex = Inr [[1, 0, 0]]"
    by code_simp
  have "check_match first_choice static_ex (oriented 7 other_none) [[1, 0, 0]] = Inr None"
    by code_simp
  then show "check_match ch static_ex (oriented 7 other_none) [[1, 0, 0]] = Inr None"
    by (simp only: check_match_singleton [of ch])
  have p: "place_neighbour grid_corner (id_tile static_ex) (id_tile other_none) None
        = Inr [[11, 13, 0], [0, 0, 0], [0, 0, 0]]"
    by code_simp
  show "match_and_place ch grid_corner static_ex other_none
       = Inr ([[11, 13, 0], [0, 0, 0], [0, 0, 0]], oriented 7 other_none)"
    by (simp only: match_and_place_def m p ebind_simps prod.case sum.case)
next
  assume "matched_edge \<noteq> Some 0 \<and> matched_edge \<noteq> Some 1 \<and> matched_edge \<noteq> Some 2"
  then show "place_neighbour id_grid current_id neighbour matched_edge
        = place_neighbour id_grid current_id neighbour (Some 3)"
    by (intro place_other_is_right) blast+
next
  assume a: "square n id_grid \<and> locate id_grid current_id = Inr (i, j) \<and> j + 1 < n"
  then have sq: "square n id_grid" and l: "locate id_grid current_id = Inr (i, j)"
    and j: "j + 1 < n"
    by blast+
  have "place_neighbour id_grid current_id neighbour None
        = place_neighbour id_grid current_id neighbour (Some 3)"
    by (rule place_other_is_right) simp_all
  also have "\<dots> = Inr (id_grid[i := (id_grid ! i)[j + 1 := neighbour]])"
    by (rule place_right [OF sq l j])
  finally show "place_neighbour id_grid current_id neighbour None
        = Inr (id_grid[i := (id_grid ! i)[j + 1 := neighbour]])" .
qed

theorem none_result_placed_right_witness:
  "None \<noteq> Some (0::nat) \<and> None \<noteq> Some (1::nat) \<and> None \<noteq> Some (2::nat)
   \<and> square 3 grid_corner \<and> locate grid_corner 11 = Inr (0, 0) \<and> (0::nat) + 1 < 3
   \<and> match_two_tiles first_choice static_ex other_none = (Inr None, oriented 7 other_none)
   \<and> place_neighbour grid_corner 11 13 None = place_neighbour grid_corner 11 13 (Some 3)
   \<and> place_neighbour grid_corner 11 13 None = Inr [[11, 13, 0], [0, 0, 0], [0, 0, 0]]"
proof -
  have sq: "square 3 grid_corner" by code_simp
  have l: "locate grid_corner 11 = Inr (0, 0)" by code_simp
  have u: "grid_corner[0 := (grid_corner ! 0)[0 + 1 := 13]] = [[11, 13, 0], [0, 0, 0], [0, 0, 0]]"
    by (simp add: grid_corner_def)
  note t = none_result_placed_right [where ch = first_choice and matched_edge = None
        and id_grid = grid_corner and current_id = 11 and neighbour = 13
        and n = 3 and i = 0 and j = 0]
  have m: "match_two_tiles first_choice static_ex other_none = (Inr None, oriented 7 other_none)"
    using t by blast
  have p1: "place_neighbour grid_corner 11 13 None = place_neighbour grid_corner 11 13 (Some 3)"
    using t by blast
  have imp: "square 3 grid_corner \<and> locate grid_corner 11 = Inr (0, 0) \<and> (0::nat) + 1 < 3
      \<longrightarrow> place_neighbour grid_corner 11 13 None
        = Inr (grid_corner[0 := (grid_corner ! 0)[0 + 1 := 13]])"
    using t by blast
  have prem: "square 3 grid_corner \<and> locate grid_corner 11 = Inr (0, 0) \<and> (0::nat) + 1 < 3"
    using sq l by simp
  have "place_neighbour grid_corner 11 13 None
        = Inr (grid_corner[0 := (grid_corner ! 0)[0 + 1 := 13]])"
    using imp prem by (rule mp)
  then have p2: "place_neighbour grid_corner 11 13 None = Inr [[11, 13, 0], [0, 0, 0], [0, 0, 0]]"
    by (simp only: u)
  show ?thesis
    by (intro conjI sq l m p1 p2) simp_all
qed

text \<open>
  C10. In the placement step on a square grid of side \<open>n\<close>, side top (0) reported
  while the current tile is in row 0 writes the neighbour into row \<open>n - 1\<close>, the last
  row, of the same column: the index \<open>-1\<close> counts from the end and nothing is raised.
  Side left (2) reported in column 0 writes into column \<open>n - 1\<close> of the same row.
\<close>

theorem negative_index_wraps_around:
  assumes "square n id_grid"
  shows "(locate id_grid current_id = Inr (0, j) \<longrightarrow>
            place_neighbour id_grid current_id neighbour (Some 0)
            = Inr (id_grid[n - 1 := (id_grid ! (n - 1))[j := neighbour]]))
       \<and> (locate id_grid current_id = Inr (i, 0) \<longrightarrow>
            place_neighbour id_grid current_id neighbour (Some 2)
            = Inr (id_grid[i := (id_grid ! i)[n - 1 := neighbour]]))"
  using place_top_row0 [OF assms] place_left_col0 [OF assms] by blast

theorem negative_index_wraps_around_witness:
  "square 3 grid_corner \<and> locate grid_corner 11 = Inr (0, 0)
   \<and> place_neighbour grid_corner 11 13 (Some 0) = Inr [[11, 0, 0], [0, 0, 0], [13, 0, 0]]
   \<and> place_neighbour grid_corner 11 13 (Some 2) = Inr [[11, 0, 13], [0, 0, 0], [0, 0, 0]]"
proof -
  have sq: "square 3 grid_corner" by code_simp
  have l: "locate grid_corner 11 = Inr (0, 0)" by code_simp
  have u: "grid_corner[3 - 1 := (grid_corner ! (3 - 1))[0 := 13]] = [[11, 0, 0], [0, 0, 0], [13, 0, 0]]"
    "grid_corner[0 := (grid_corner ! 0)[3 - 1 := 13]] = [[11, 0, 13], [0, 0, 0], [0, 0, 0]]"
    by (simp_all add: grid_corner_def)
  show ?thesis
    using negative_index_wraps_around [OF sq, of 11 0 13 0] sq l u by simp
qed

section \<open>The first corner: proofs\<close>

lemma square_rows_nonempty:
  assumes "square n m" "0 < n"
  shows "m \<noteq> []" and "\<And>r. r \<in> set m \<Longrightarrow> r \<noteq> []" and "hd m \<in> set m" and "last m \<in> set m"
  using assms by (auto simp: square_def)

lemma hd_rot90_1:
  assumes "square n m" "0 < n"
  shows "hd (rot90 m 1) = map last m"
proof -
  have f: "square n (flip_cols m)" by (rule square_flip_cols [OF assms(1)])
  have "rot90 m 1 = map (\<lambda>j. map (\<lambda>row. row ! j) (flip_cols m)) [0..<n]"
    by (simp add: rot90_def transpose2_square [OF f])
  moreover have "[0..<n] = 0 # [1..<n]" using assms(2) by (simp add: upt_conv_Cons)
  ultimately have "hd (rot90 m 1) = map (\<lambda>row. row ! 0) (flip_cols m)" by simp
  also have "\<dots> = map (\<lambda>row. rev row ! 0) m" by (simp add: flip_cols_def comp_def)
  also have "\<dots> = map last m"
  proof (rule map_cong [OF refl])
    fix row assume "row \<in> set m"
    then have "row \<noteq> []" using square_rows_nonempty(2) [OF assms] by blast
    then show "rev row ! 0 = last row" by (simp add: rev_nth last_conv_nth)
  qed
  finally show ?thesis .
qed

lemma map_hd_rot90_1:
  assumes "square n m" "0 < n"
  shows "map hd (rot90 m 1) = rev (hd m)"
proof -
  have f: "square n (flip_cols m)" by (rule square_flip_cols [OF assms(1)])
  have ne: "m \<noteq> []" by (rule square_rows_nonempty(1) [OF assms])
  have len: "length (hd m) = n"
    using square_rows_nonempty(3) [OF assms] assms(1) by (simp add: square_def)
  have "rot90 m 1 = map (\<lambda>j. map (\<lambda>row. row ! j) (flip_cols m)) [0..<n]"
    by (simp add: rot90_def transpose2_square [OF f])
  then have "map hd (rot90 m 1) = map (\<lambda>j. hd (map (\<lambda>row. row ! j) (flip_cols m))) [0..<n]"
    by (simp add: comp_def)
  also have "\<dots> = map (\<lambda>j. rev (hd m) ! j) [0..<n]"
    using ne by (simp add: flip_cols_def hd_map)
  also have "\<dots> = rev (hd m)"
    using map_nth [of "rev (hd m)"] len by simp
  finally show ?thesis .
qed

lemma hd_rot90_2:
  assumes "square n m" "0 < n"
  shows "hd (rot90 m 2) = rev (last m)"
  using square_rows_nonempty(1) [OF assms]
  by (simp add: rot90_def flip_cols_def flip_rows_def hd_map hd_rev)

lemma map_hd_rot90_2:
  assumes "square n m" "0 < n"
  shows "map hd (rot90 m 2) = rev (map last m)"
proof -
  have "map hd (rot90 m 2) = map (\<lambda>row. hd (rev row)) (rev m)"
    by (simp add: rot90_def flip_cols_def flip_rows_def comp_def)
  also have "\<dots> = map last (rev m)"
    by (rule map_cong [OF refl]) (simp add: hd_rev)
  finally show ?thesis by (simp add: rev_map)
qed

lemma hd_flip_rows: "hd (flip_rows m) = last m"
  by (simp add: flip_rows_def hd_rev)

lemma map_hd_flip_rows: "map hd (flip_rows m) = rev (map hd m)"
  by (simp add: flip_rows_def rev_map)

lemma orient_corner_edges:
  assumes "square n (image_tile t)" "0 < n"
  shows "list_edges t = Inr [hd (image_tile t), last (image_tile t),
                             map hd (image_tile t), map last (image_tile t)]"
    and "\<exists>b r. list_edges (orient_corner {0, 3} t)
            = Inr [map last (image_tile t), b, rev (hd (image_tile t)), r]"
    and "\<exists>b r. list_edges (orient_corner {1, 3} t)
            = Inr [rev (last (image_tile t)), b, rev (map last (image_tile t)), r]"
    and "\<exists>b r. list_edges (orient_corner {1, 2} t)
            = Inr [last (image_tile t), b, rev (map hd (image_tile t)), r]"
    and "orient_corner {0, 2} t = t"
proof -
  show "list_edges t = Inr [hd (image_tile t), last (image_tile t),
                             map hd (image_tile t), map last (image_tile t)]"
    by (rule list_edges_square [OF assms])
  have s1: "square n (image_tile (rotate_tile t 1))"
    using square_rot90 [OF assms(1)] by (simp add: rotate_tile_def)
  have "orient_corner {0, 3} t = rotate_tile t 1" by (simp add: orient_corner_def)
  then show "\<exists>b r. list_edges (orient_corner {0, 3} t)
            = Inr [map last (image_tile t), b, rev (hd (image_tile t)), r]"
    using list_edges_square [OF s1 assms(2)] hd_rot90_1 [OF assms] map_hd_rot90_1 [OF assms]
    by (simp add: rotate_tile_def)
  have s2: "square n (image_tile (rotate_tile t 2))"
    using square_rot90 [OF assms(1)] by (simp add: rotate_tile_def)
  have ne13: "{1, 3} \<noteq> {0, 3::nat}" by auto
  have "orient_corner {1, 3} t = rotate_tile t 2"
    by (simp only: orient_corner_def ne13 if_False if_True simp_thms)
  then show "\<exists>b r. list_edges (orient_corner {1, 3} t)
            = Inr [rev (last (image_tile t)), b, rev (map last (image_tile t)), r]"
    using list_edges_square [OF s2 assms(2)] hd_rot90_2 [OF assms] map_hd_rot90_2 [OF assms]
    by (simp add: rotate_tile_def)
  have s3: "square n (image_tile (reflect_up_down t))"
    using square_flip_rows [OF assms(1)] by (simp add: reflect_up_down_def)
  have ne12: "{1, 2} \<noteq> {0, 3::nat}" "{1, 2} \<noteq> {1, 3::nat}" by auto
  have "orient_corner {1, 2} t = reflect_up_down t"
    by (simp only: orient_corner_def ne12 if_False if_True simp_thms)
  then show "\<exists>b r. list_edges (orient_corner {1, 2} t)
            = Inr [last (image_tile t), b, rev (map hd (image_tile t)), r]"
    using list_edges_square [OF s3 assms(2)]
    by (simp add: reflect_up_down_def hd_flip_rows map_hd_flip_rows)
  have ne02: "{0, 2} \<noteq> {0, 3::nat}" "{0, 2} \<noteq> {1, 3::nat}" "{0, 2} \<noteq> {1, 2::nat}" by auto
  show "orient_corner {0, 2} t = t"
    by (simp only: orient_corner_def ne02 if_False)
qed


lemma set_union_set: "set (union_set a b) = set a \<union> set b"
  by (auto simp: union_set_def)

lemma set_inter_set: "set (inter_set a b) = set a \<inter> set b"
  by (auto simp: inter_set_def)

lemma set_diff_set: "set (diff_set a b) = set a - set b"
  by (auto simp: diff_set_def)

lemma set_reversed_set: "set (reversed_set s) = rev ` set s"
  by (simp add: reversed_set_def)

lemma set_pop_rest: "set_pop ch s = Inr (x, rest) \<Longrightarrow> set rest \<subseteq> set s"
proof -
  assume a: "set_pop ch s = Inr (x, rest)"
  then have "rest = take (ch s mod length s) s @ drop (Suc (ch s mod length s)) s"
    by (auto simp: set_pop_def Let_def split: if_splits)
  then show ?thesis
    by (auto dest: in_set_takeD in_set_dropD)
qed

lemma unmatched_loop_sound:
  assumes "unmatched_loop ns ue0 = Inr ue"
  shows "set ue \<subseteq> set ue0
       \<and> (\<forall>nb \<in> set ns. \<forall>ne. edges nb = Inr ne \<longrightarrow>
            (\<forall>e \<in> set ue. e \<notin> set ne \<and> e \<notin> rev ` set ne))"
  using assms
proof (induction ns arbitrary: ue0)
  case Nil
  then show ?case by simp
next
  case (Cons nb ns)
  from Cons.prems obtain ne where ne: "edges nb = Inr ne"
    and rec: "unmatched_loop ns
        (diff_set ue0 (inter_set ue0 (union_set ne (reversed_set ne)))) = Inr ue"
    by (auto simp: ebind_Inr_iff Let_def)
  from Cons.IH [OF rec]
  have sub: "set ue \<subseteq> set (diff_set ue0 (inter_set ue0 (union_set ne (reversed_set ne))))"
    and others: "\<forall>nb \<in> set ns. \<forall>ne. edges nb = Inr ne \<longrightarrow>
            (\<forall>e \<in> set ue. e \<notin> set ne \<and> e \<notin> rev ` set ne)"
    by blast+
  have st: "set (diff_set ue0 (inter_set ue0 (union_set ne (reversed_set ne))))
        = set ue0 - (set ne \<union> rev ` set ne)"
    by (auto simp: set_diff_set set_inter_set set_union_set set_reversed_set)
  have here: "\<forall>e \<in> set ue. e \<notin> set ne \<and> e \<notin> rev ` set ne"
    using sub st by blast
  have "set ue \<subseteq> set ue0" using sub st by blast
  then show ?case using here others ne by auto
qed

lemma unmatched_indices_Inr:
  assumes "unmatched_indices ch t ue = Inr S"
  shows "\<exists>le e1 e2 a b. list_edges t = Inr le \<and> e1 \<in> set ue \<and> e2 \<in> set ue
           \<and> index_of le e1 = Inr a \<and> index_of le e2 = Inr b \<and> S = {a, b}
           \<and> le ! a = e1 \<and> le ! b = e2"
proof -
  from assms obtain le e1 rest a e2 rest2 b where
    le: "list_edges t = Inr le" and p1: "set_pop ch ue = Inr (e1, rest)"
    and a: "index_of le e1 = Inr a" and p2: "set_pop ch rest = Inr (e2, rest2)"
    and b: "index_of le e2 = Inr b" and S: "S = {a, b}"
    by (auto simp: unmatched_indices_def ebind_Inr_iff split: prod.splits)
  have "e1 \<in> set ue" by (rule set_pop_Inr [OF p1])
  moreover have "e2 \<in> set ue" using set_pop_Inr [OF p2] set_pop_rest [OF p1] by blast
  ultimately show ?thesis
    using le a b S index_of_Inr [OF a] index_of_Inr [OF b] by blast
qed

lemma four_sets_cases:
  assumes "{a, b} \<in> {{0, 3}, {1, 3}, {1, 2}, {0, 2::nat}}"
  shows "(a = 0 \<and> b = 3) \<or> (a = 3 \<and> b = 0) \<or> (a = 1 \<and> b = 3) \<or> (a = 3 \<and> b = 1)
       \<or> (a = 1 \<and> b = 2) \<or> (a = 2 \<and> b = 1) \<or> (a = 0 \<and> b = 2) \<or> (a = 2 \<and> b = 0)"
  using assms by (auto simp: doubleton_eq_iff)

lemma same_edge_simps: "same_edge a a" "same_edge (rev a) a"
  by (simp_all add: same_edge_def)

lemma orient_corner_lands:
  assumes "square n (image_tile first_corner)" "0 < n"
    and "list_edges first_corner = Inr le"
  shows "\<exists>le'. list_edges (orient_corner {0, 3} first_corner) = Inr le'
            \<and> le' ! 0 = le ! 3 \<and> le' ! 2 = rev (le ! 0)"
    and "\<exists>le'. list_edges (orient_corner {1, 3} first_corner) = Inr le'
            \<and> le' ! 0 = rev (le ! 1) \<and> le' ! 2 = rev (le ! 3)"
    and "\<exists>le'. list_edges (orient_corner {1, 2} first_corner) = Inr le'
            \<and> le' ! 0 = le ! 1 \<and> le' ! 2 = rev (le ! 2)"
    and "\<exists>le'. list_edges (orient_corner {0, 2} first_corner) = Inr le'
            \<and> le' ! 0 = le ! 0 \<and> le' ! 2 = le ! 2"
proof -
  note e = orient_corner_edges [OF assms(1,2)]
  have le: "le = [hd (image_tile first_corner), last (image_tile first_corner),
                  map hd (image_tile first_corner), map last (image_tile first_corner)]"
    using e(1) assms(3) by simp
  show "\<exists>le'. list_edges (orient_corner {0, 3} first_corner) = Inr le'
            \<and> le' ! 0 = le ! 3 \<and> le' ! 2 = rev (le ! 0)"
    using e(2) by (auto simp: le)
  show "\<exists>le'. list_edges (orient_corner {1, 3} first_corner) = Inr le'
            \<and> le' ! 0 = rev (le ! 1) \<and> le' ! 2 = rev (le ! 3)"
    using e(3) by (auto simp: le)
  show "\<exists>le'. list_edges (orient_corner {1, 2} first_corner) = Inr le'
            \<and> le' ! 0 = le ! 1 \<and> le' ! 2 = rev (le ! 2)"
    using e(4) by (auto simp: le)
  show "\<exists>le'. list_edges (orient_corner {0, 2} first_corner) = Inr le'
            \<and> le' ! 0 = le ! 0 \<and> le' ! 2 = le ! 2"
    using assms(3) by (simp add: e(5))
qed

lemma orient_corner_same_edge:
  assumes "square n (image_tile first_corner)" "0 < n"
    and "list_edges first_corner = Inr le"
    and u: "unmatched \<in> {{0, 3}, {1, 3}, {1, 2}, {0, 2}}"
  shows "\<exists>le' a b. list_edges (orient_corner unmatched first_corner) = Inr le'
                \<and> unmatched = {a, b} \<and> a \<noteq> b
                \<and> same_edge (le' ! 0) (le ! a) \<and> same_edge (le' ! 2) (le ! b)"
proof -
  note l = orient_corner_lands [OF assms(1-3)]
  consider "unmatched = {0, 3}" | "unmatched = {1, 3}" | "unmatched = {1, 2}"
    | "unmatched = {0, 2}"
    using u by blast
  then show ?thesis
  proof cases
    case 1
    then obtain le' where "list_edges (orient_corner unmatched first_corner) = Inr le'"
      "le' ! 0 = le ! 3" "le' ! 2 = rev (le ! 0)" using l(1) by blast
    moreover have "unmatched = {3, 0}" using 1 by auto
    ultimately show ?thesis
      by (intro exI [of _ le'] exI [of _ 3] exI [of _ 0]) (simp add: same_edge_simps)
  next
    case 2
    then obtain le' where "list_edges (orient_corner unmatched first_corner) = Inr le'"
      "le' ! 0 = rev (le ! 1)" "le' ! 2 = rev (le ! 3)" using l(2) by blast
    then show ?thesis using 2
      by (intro exI [of _ le'] exI [of _ 1] exI [of _ 3]) (simp add: same_edge_simps)
  next
    case 3
    then obtain le' where "list_edges (orient_corner unmatched first_corner) = Inr le'"
      "le' ! 0 = le ! 1" "le' ! 2 = rev (le ! 2)" using l(3) by blast
    then show ?thesis using 3
      by (intro exI [of _ le'] exI [of _ 1] exI [of _ 2]) (simp add: same_edge_simps)
  next
    case 4
    then obtain le' where "list_edges (orient_corner unmatched first_corner) = Inr le'"
      "le' ! 0 = le ! 0" "le' ! 2 = le ! 2" using l(4) by blast
    then show ?thesis using 4
      by (intro exI [of _ le'] exI [of _ 0] exI [of _ 2]) (simp add: same_edge_simps)
  qed
qed

lemma orient_first_corner_sound:
  assumes "square n (image_tile first_corner)" "0 < n"
    and "orient_first_corner ch first_corner neighbours = Inr t'"
  shows "\<exists>le ue unmatched e1 e2. list_edges first_corner = Inr le \<and> set ue \<subseteq> set le
           \<and> (\<forall>nb \<in> set neighbours. \<forall>ne. edges nb = Inr ne \<longrightarrow>
                (\<forall>e \<in> set ue. e \<notin> set ne \<and> e \<notin> rev ` set ne))
           \<and> e1 \<in> set ue \<and> e2 \<in> set ue \<and> t' = orient_corner unmatched first_corner
           \<and> (unmatched \<in> {{0, 3}, {1, 3}, {1, 2}, {0, 2}} \<longrightarrow>
                (\<exists>le'. list_edges t' = Inr le'
                   \<and> (same_edge (le' ! 0) e1 \<and> same_edge (le' ! 2) e2
                       \<or> same_edge (le' ! 0) e2 \<and> same_edge (le' ! 2) e1)))"
proof -
  from assms(3) obtain es ue unmatched where
    es: "edges first_corner = Inr es" and ue: "unmatched_loop neighbours es = Inr ue"
    and um: "unmatched_indices ch first_corner ue = Inr unmatched"
    and t': "t' = orient_corner unmatched first_corner"
    by (auto simp: orient_first_corner_def ebind_Inr_iff)
  from edges_set [OF es] obtain ls where ls: "list_edges first_corner = Inr ls" "set es = set ls"
    by blast
  from unmatched_loop_sound [OF ue]
  have sub: "set ue \<subseteq> set ls"
    and nomatch: "\<forall>nb \<in> set neighbours. \<forall>ne. edges nb = Inr ne \<longrightarrow>
                (\<forall>e \<in> set ue. e \<notin> set ne \<and> e \<notin> rev ` set ne)"
    using ls(2) by blast+
  from unmatched_indices_Inr [OF um] ls(1) obtain e1 e2 a b where
    e: "e1 \<in> set ue" "e2 \<in> set ue" "unmatched = {a, b}" "ls ! a = e1" "ls ! b = e2"
    by auto
  have land: "\<exists>le'. list_edges t' = Inr le'
                   \<and> (same_edge (le' ! 0) e1 \<and> same_edge (le' ! 2) e2
                       \<or> same_edge (le' ! 0) e2 \<and> same_edge (le' ! 2) e1)"
    if u: "unmatched \<in> {{0, 3}, {1, 3}, {1, 2}, {0, 2}}"
  proof -
    from orient_corner_same_edge [OF assms(1,2) ls(1) u] obtain le' a' b' where
      l: "list_edges (orient_corner unmatched first_corner) = Inr le'" "unmatched = {a', b'}"
      "same_edge (le' ! 0) (ls ! a')" "same_edge (le' ! 2) (ls ! b')"
      by blast
    have "(a' = a \<and> b' = b) \<or> (a' = b \<and> b' = a)"
      using l(2) e(3) by (auto simp: doubleton_eq_iff)
    then show ?thesis using l(1,3,4) e(4,5) t' by auto
  qed
  show ?thesis
    using ls(1) sub nomatch e(1,2) t' land by blast
qed

text \<open>
  C4. For a square, non-empty corner tile with ordered edges \<open>le\<close>, the corrective
  transform chosen for each of the four index sets puts the two unmatched edges on top
  (index 0) and left (index 2), the same pixels read in the same or the opposite
  direction: for \<open>{top, right}\<close> the quarter turn gives top = old right and left = old
  top reversed; for \<open>{bottom, right}\<close> the half turn gives top = old bottom reversed and
  left = old right reversed; for \<open>{bottom, left}\<close> the up-down reflection gives top = old
  bottom and left = old left reversed; for \<open>{top, left}\<close> nothing changes.
\<close>

theorem corner_transform_puts_unmatched_top_left:
  assumes "square n (image_tile first_corner)" "0 < n"
    and "list_edges first_corner = Inr le"
  shows "(unmatched = {0, 3} \<longrightarrow>
            (\<exists>le'. list_edges (orient_corner unmatched first_corner) = Inr le'
                \<and> le' ! 0 = le ! 3 \<and> le' ! 2 = rev (le ! 0)))
       \<and> (unmatched = {1, 3} \<longrightarrow>
            (\<exists>le'. list_edges (orient_corner unmatched first_corner) = Inr le'
                \<and> le' ! 0 = rev (le ! 1) \<and> le' ! 2 = rev (le ! 3)))
       \<and> (unmatched = {1, 2} \<longrightarrow>
            (\<exists>le'. list_edges (orient_corner unmatched first_corner) = Inr le'
                \<and> le' ! 0 = le ! 1 \<and> le' ! 2 = rev (le ! 2)))
       \<and> (unmatched = {0, 2} \<longrightarrow>
            (\<exists>le'. list_edges (orient_corner unmatched first_corner) = Inr le'
                \<and> le' ! 0 = le ! 0 \<and> le' ! 2 = le ! 2))
       \<and> (unmatched \<in> {{0, 3}, {1, 3}, {1, 2}, {0, 2}} \<longrightarrow>
            (\<exists>le' a b. list_edges (orient_corner unmatched first_corner) = Inr le'
                \<and> unmatched = {a, b} \<and> a \<noteq> b
                \<and> same_edge (le' ! 0) (le ! a) \<and> same_edge (le' ! 2) (le ! b)))"
proof -
  note l = orient_corner_lands [OF assms]
  have c1: "unmatched = {0, 3} \<longrightarrow>
            (\<exists>le'. list_edges (orient_corner unmatched first_corner) = Inr le'
                \<and> le' ! 0 = le ! 3 \<and> le' ! 2 = rev (le ! 0))"
    using l(1) by blast
  have c2: "unmatched = {1, 3} \<longrightarrow>
            (\<exists>le'. list_edges (orient_corner unmatched first_corner) = Inr le'
                \<and> le' ! 0 = rev (le ! 1) \<and> le' ! 2 = rev (le ! 3))"
    using l(2) by blast
  have c3: "unmatched = {1, 2} \<longrightarrow>
            (\<exists>le'. list_edges (orient_corner unmatched first_corner) = Inr le'
                \<and> le' ! 0 = le ! 1 \<and> le' ! 2 = rev (le ! 2))"
    using l(3) by blast
  have c4: "unmatched = {0, 2} \<longrightarrow>
            (\<exists>le'. list_edges (orient_corner unmatched first_corner) = Inr le'
                \<and> le' ! 0 = le ! 0 \<and> le' ! 2 = le ! 2)"
    using l(4) by blast
  have c5: "unmatched \<in> {{0, 3}, {1, 3}, {1, 2}, {0, 2}} \<longrightarrow>
            (\<exists>le' a b. list_edges (orient_corner unmatched first_corner) = Inr le'
                \<and> unmatched = {a, b} \<and> a \<noteq> b
                \<and> same_edge (le' ! 0) (le ! a) \<and> same_edge (le' ! 2) (le ! b))"
    using orient_corner_same_edge [OF assms] by blast
  show ?thesis using c1 c2 c3 c4 c5 by blast
qed

theorem corner_transform_puts_unmatched_top_left_witness:
  "square 3 (image_tile corner_ex) \<and> (0::nat) < 3
   \<and> list_edges corner_ex = Inr [[1, 1, 0], [1, 0, 0], [1, 0, 1], [0, 1, 0]]
   \<and> orient_first_corner first_choice corner_ex [below_ex, left_ex]
       = Inr (orient_corner {0, 3} corner_ex)
   \<and> list_edges (orient_corner {0, 3} corner_ex)
       = Inr [[0, 1, 0], [1, 0, 1], [0, 1, 1], [0, 0, 1]]
   \<and> (\<exists>le'. list_edges (orient_corner {0, 3} corner_ex) = Inr le'
         \<and> le' ! 0 = [[1, 1, 0], [1, 0, 0], [1, 0, 1], [0, 1, 0]] ! 3
         \<and> le' ! 2 = rev ([[1, 1, 0], [1, 0, 0], [1, 0, 1], [0, 1, 0]] ! 0))"
proof -
  have sq: "square 3 (image_tile corner_ex)" by code_simp
  have le: "list_edges corner_ex = Inr [[1, 1, 0], [1, 0, 0], [1, 0, 1], [0, 1, 0]]"
    by code_simp
  have u: "unmatched_indices first_choice corner_ex [[1, 1, 0], [0, 1, 0]] = Inr {0, 3}"
    by (simp add: unmatched_indices_def le set_pop_def first_choice_def ebind_simps
        eval_nat_numeral)
  have ue: "ebind (edges corner_ex) (unmatched_loop [below_ex, left_ex])
        = Inr [[1, 1, 0], [0, 1, 0]]"
    by code_simp
  have o: "orient_first_corner first_choice corner_ex [below_ex, left_ex]
       = Inr (orient_corner {0, 3} corner_ex)"
    using ue u by (auto simp: orient_first_corner_def ebind_Inr_iff ebind_simps)
  have l2: "list_edges (rotate_tile corner_ex 1) = Inr [[0, 1, 0], [1, 0, 1], [0, 1, 1], [0, 0, 1]]"
    by code_simp
  have l3: "list_edges (orient_corner {0, 3} corner_ex)
       = Inr [[0, 1, 0], [1, 0, 1], [0, 1, 1], [0, 0, 1]]"
    using l2 by (simp add: orient_corner_def)
  have z: "(0::nat) < 3" by simp
  from corner_transform_puts_unmatched_top_left [OF sq z le, of "{0, 3}"]
  have "\<exists>le'. list_edges (orient_corner {0, 3} corner_ex) = Inr le'
         \<and> le' ! 0 = [[1, 1, 0], [1, 0, 0], [1, 0, 1], [0, 1, 0]] ! 3
         \<and> le' ! 2 = rev ([[1, 1, 0], [1, 0, 0], [1, 0, 1], [0, 1, 0]] ! 0)"
    by blast
  then show ?thesis
    by (intro conjI sq z le o l3)
qed

section \<open>Part one: proofs\<close>

lemma dict_inv_Nil: "dict_inv []"
  by (simp add: dict_inv_def)

lemma set_update_subset: "set (AList.update k v d) \<subseteq> insert (k, v) (set d)"
  by (induction d) auto

lemma dict_inv_dd_add:
  assumes "dict_inv d"
  shows "dict_inv (dd_add d i j)"
proof -
  define old where "old = (case map_of d i of None \<Rightarrow> [] | Some s \<Rightarrow> s)"
  have "distinct old"
  proof (cases "map_of d i")
    case None
    then show ?thesis by (simp add: old_def)
  next
    case (Some s)
    then have "(i, s) \<in> set d" by (rule map_of_SomeD)
    then show ?thesis using assms Some by (auto simp: dict_inv_def old_def)
  qed
  then have dv: "distinct (List.insert j old)" by simp
  have keys: "distinct (map fst (AList.update i (List.insert j old) d))"
    using assms by (simp add: dict_inv_def distinct_update)
  have "\<forall>(t, ns) \<in> set (AList.update i (List.insert j old) d). distinct ns"
    using set_update_subset [of i "List.insert j old" d] dv assms
    by (auto simp: dict_inv_def)
  then show ?thesis using keys by (simp add: dict_inv_def dd_add_def old_def)
qed

lemma dict_inv_neighbours_loop:
  assumes "neighbours_loop pairs d = Inr d'" "dict_inv d"
  shows "dict_inv d'"
  using assms
proof (induction pairs arbitrary: d)
  case Nil
  then show ?case by simp
next
  case (Cons p pairs)
  obtain i ti j tj where p: "p = ((i, ti), (j, tj))" by (metis surj_pair)
  from Cons.prems(1) obtain ei ej where e: "edges ti = Inr ei" "edges tj = Inr ej"
    and r: "(if inter_set (union_set ei (reversed_set ei)) ej \<noteq> []
         then neighbours_loop pairs (dd_add (dd_add d i j) j i)
         else neighbours_loop pairs d) = Inr d'"
    by (auto simp: p ebind_Inr_iff Let_def)
  show ?case
  proof (cases "inter_set (union_set ei (reversed_set ei)) ej \<noteq> []")
    case True
    then have "neighbours_loop pairs (dd_add (dd_add d i j) j i) = Inr d'" using r by simp
    moreover have "dict_inv (dd_add (dd_add d i j) j i)"
      by (intro dict_inv_dd_add Cons.prems(2))
    ultimately show ?thesis by (rule Cons.IH)
  next
    case False
    then have "neighbours_loop pairs d = Inr d'" using r by simp
    then show ?thesis using Cons.prems(2) by (rule Cons.IH)
  qed
qed

lemma dict_inv_find_possible_neighbours:
  "find_possible_neighbours tiles = Inr d \<Longrightarrow> dict_inv d"
  unfolding find_possible_neighbours_def
  by (rule dict_inv_neighbours_loop [OF _ dict_inv_Nil])

lemma foldl_mult: "foldl (\<lambda>a b. a * b) (x::int) ys = x * prod_list ys"
  by (induction ys arbitrary: x) (simp_all add: mult.assoc)

lemma reduce_mul_distinct:
  assumes "distinct xs" "xs \<noteq> []"
  shows "reduce_mul xs = Inr (\<Prod>t \<in> set xs. t)"
proof -
  obtain x ys where xs: "xs = x # ys" using assms(2) by (cases xs) auto
  have "reduce_mul xs = Inr (prod_list xs)"
    by (simp add: xs reduce_mul_def foldl_mult)
  moreover have "prod_list xs = (\<Prod>t \<in> set xs. t)"
    using prod.distinct_set_conv_list [OF assms(1), of "\<lambda>t. t"] by simp
  ultimately show ?thesis by simp
qed

lemma corner_ids_set:
  assumes "dict_inv d"
  shows "distinct (corner_ids d)"
    and "set (corner_ids d) = {t. \<exists>ns. map_of d t = Some ns \<and> card (set ns) = 2}"
proof -
  show "distinct (corner_ids d)" by (simp add: corner_ids_def)
  have keys: "distinct (map fst d)" using assms by (simp add: dict_inv_def)
  have vals: "\<And>t ns. (t, ns) \<in> set d \<Longrightarrow> distinct ns"
    using assms by (auto simp: dict_inv_def)
  have "set (corner_ids d) = {t. \<exists>ns. (t, ns) \<in> set d \<and> length ns = 2}"
    by (auto simp: corner_ids_def)
  also have "\<dots> = {t. \<exists>ns. map_of d t = Some ns \<and> card (set ns) = 2}"
  proof (intro Collect_cong iffI)
    fix t assume "\<exists>ns. (t, ns) \<in> set d \<and> length ns = 2"
    then obtain ns where ns: "(t, ns) \<in> set d" "length ns = 2" by blast
    then have "map_of d t = Some ns" using keys by simp
    moreover have "card (set ns) = 2" using vals [OF ns(1)] ns(2) by (simp add: distinct_card)
    ultimately show "\<exists>ns. map_of d t = Some ns \<and> card (set ns) = 2" by blast
  next
    fix t assume "\<exists>ns. map_of d t = Some ns \<and> card (set ns) = 2"
    then obtain ns where ns: "map_of d t = Some ns" "card (set ns) = 2" by blast
    then have m: "(t, ns) \<in> set d" by (simp add: map_of_SomeD)
    then have "length ns = 2" using vals [OF m] ns(2) by (simp add: distinct_card)
    then show "\<exists>ns. (t, ns) \<in> set d \<and> length ns = 2" using m by blast
  qed
  finally show "set (corner_ids d) = {t. \<exists>ns. map_of d t = Some ns \<and> card (set ns) = 2}" .
qed

lemma part_one_product:
  assumes "find_possible_neighbours tiles = Inr tile_to_neighbours"
    and "\<forall>xs. mset (order xs) = mset xs"
  shows "part_one order tiles =
     (if {t. \<exists>ns. map_of tile_to_neighbours t = Some ns \<and> card (set ns) = 2} = {}
      then Inl TypeError
      else Inr (\<Prod>t \<in> {t. \<exists>ns. map_of tile_to_neighbours t = Some ns \<and> card (set ns) = 2}. t))"
proof -
  let ?C = "{t. \<exists>ns. map_of tile_to_neighbours t = Some ns \<and> card (set ns) = 2}"
  have inv: "dict_inv tile_to_neighbours"
    by (rule dict_inv_find_possible_neighbours [OF assms(1)])
  have m: "mset (order (corner_ids tile_to_neighbours)) = mset (corner_ids tile_to_neighbours)"
    using assms(2) by blast
  have d: "distinct (order (corner_ids tile_to_neighbours))"
    using mset_eq_imp_distinct_iff [OF m] corner_ids_set(1) [OF inv] by simp
  have s: "set (order (corner_ids tile_to_neighbours)) = ?C"
    using mset_eq_setD [OF m] corner_ids_set(2) [OF inv] by simp
  have p: "part_one order tiles = reduce_mul (order (corner_ids tile_to_neighbours))"
    by (simp add: part_one_def assms(1) ebind_simps)
  show ?thesis
  proof (cases "?C = {}")
    case True
    then have "set (order (corner_ids tile_to_neighbours)) = {}" using s by (simp only:)
    then have "order (corner_ids tile_to_neighbours) = []" by (simp only: set_empty)
    then show ?thesis using True p by (simp add: reduce_mul_def)
  next
    case False
    then have "order (corner_ids tile_to_neighbours) \<noteq> []" using s by auto
    from reduce_mul_distinct [OF d this] show ?thesis using False p s by simp
  qed
qed

text \<open>
  C6. The first printed value is the product of the identifiers of exactly those keys
  of the adjacency map returned by \<open>find_possible_neighbours\<close> whose neighbour tuple
  has two members, in whatever order \<open>reduce\<close> walks the set; when there is no such
  key, \<open>reduce\<close> raises \<open>TypeError\<close> and nothing is printed.
\<close>

theorem first_output_is_corner_product:
  assumes "find_possible_neighbours tiles = Inr tile_to_neighbours"
    and "\<forall>xs. mset (order xs) = mset xs"
  shows "part_one order tiles =
     (if {t. \<exists>ns. map_of tile_to_neighbours t = Some ns \<and> card (set ns) = 2} = {}
      then Inl TypeError
      else Inr (\<Prod>t \<in> {t. \<exists>ns. map_of tile_to_neighbours t = Some ns \<and> card (set ns) = 2}. t))"
  using assms by (rule part_one_product)

theorem first_output_is_corner_product_witness:
  "find_possible_neighbours tiles_ex
     = Inr [(21, [23, 22]), (22, [14, 23, 21]), (23, [14, 22, 21]), (14, [23, 22])]
   \<and> (\<forall>xs :: int list. mset (rev xs) = mset xs)
   \<and> part_one rev tiles_ex = Inr 294
   \<and> {t. \<exists>ns. map_of [(21, [23, 22]), (22, [14, 23, 21]), (23, [14, 22, 21]), (14, [23, 22 :: int])] t
               = Some ns \<and> card (set ns) = 2} \<noteq> ({} :: int set)
   \<and> (\<Prod>t \<in> {t. \<exists>ns. map_of [(21, [23, 22]), (22, [14, 23, 21]), (23, [14, 22, 21]),
                                   (14, [23, 22 :: int])] t = Some ns \<and> card (set ns) = 2}. t)
       = (294 :: int)"
proof -
  have f: "find_possible_neighbours tiles_ex
     = Inr [(21, [23, 22]), (22, [14, 23, 21]), (23, [14, 22, 21]), (14, [23, 22])]"
    by code_simp
  have o: "\<forall>xs :: int list. mset (rev xs) = mset xs" by simp
  have v: "part_one rev tiles_ex = Inr 294"
    by code_simp
  note t = first_output_is_corner_product [OF f o]
  have ne: "{t. \<exists>ns. map_of [(21, [23, 22]), (22, [14, 23, 21]), (23, [14, 22, 21]), (14, [23, 22 :: int])] t
               = Some ns \<and> card (set ns) = 2} \<noteq> ({} :: int set)"
    using t v by (auto split: if_splits)
  have pr: "(\<Prod>t \<in> {t. \<exists>ns. map_of [(21, [23, 22]), (22, [14, 23, 21]), (23, [14, 22, 21]),
                                   (14, [23, 22 :: int])] t = Some ns \<and> card (set ns) = 2}. t)
       = (294 :: int)"
    using t v ne by (simp only: if_False sum.inject)
  show ?thesis
    by (intro conjI f o v ne pr)
qed

end
